theory Spec2Isabelle
  imports Complex_Main
begin

section \<open>Python strings\<close>

text \<open>
  A Python \<^verbatim>\<open>str\<close> is a sequence of Unicode code points. Code points are natural
  numbers; \<open>u ''abc''\<close> is the string of the code points of an ASCII literal.
\<close>

type_synonym cp = nat
type_synonym ustr = "cp list"

definition u :: "string \<Rightarrow> ustr" where
  "u s = map of_char s"

text \<open>
  \<^verbatim>\<open>str.isspace\<close> of one character, which is also what \<^verbatim>\<open>str.strip()\<close> removes and
  what \<^verbatim>\<open>\s\<close> matches in a \<^verbatim>\<open>str\<close> pattern: TAB..CR, FS..US, SPACE, NEL, NBSP,
  U+1680, U+2000..U+200A, U+2028, U+2029, U+202F, U+205F, U+3000.
\<close>

definition isspace :: "cp \<Rightarrow> bool" where
  "isspace c \<longleftrightarrow>
     (9 \<le> c \<and> c \<le> 13) \<or> (28 \<le> c \<and> c \<le> 32) \<or> c = 133 \<or> c = 160 \<or> c = 5760 \<or>
     (8192 \<le> c \<and> c \<le> 8202) \<or> c = 8232 \<or> c = 8233 \<or> c = 8239 \<or> c = 8287 \<or> c = 12288"

definition ascii_upper_letter :: "cp \<Rightarrow> bool" where
  "ascii_upper_letter c \<longleftrightarrow> 65 \<le> c \<and> c \<le> 90"

definition ascii_lower_letter :: "cp \<Rightarrow> bool" where
  "ascii_lower_letter c \<longleftrightarrow> 97 \<le> c \<and> c \<le> 122"

definition ascii_digit :: "cp \<Rightarrow> bool" where
  "ascii_digit c \<longleftrightarrow> 48 \<le> c \<and> c \<le> 57"

definition ascii_alnum :: "cp \<Rightarrow> bool" where
  "ascii_alnum c \<longleftrightarrow> ascii_upper_letter c \<or> ascii_lower_letter c \<or> ascii_digit c"

text \<open>The character class \<^verbatim>\<open>[a-z0-9]\<close>.\<close>

definition az09 :: "cp \<Rightarrow> bool" where
  "az09 c \<longleftrightarrow> ascii_lower_letter c \<or> ascii_digit c"

definition ascii_lower :: "cp \<Rightarrow> cp" where
  "ascii_lower c = (if ascii_upper_letter c then c + 32 else c)"

definition is_ascii :: "ustr \<Rightarrow> bool" where
  "is_ascii s = list_all (\<lambda>c. c < 128) s"

text \<open>
  The Unicode Character Database is not part of the program. Its rows for Basic Latin
  (code points below 128) are written out; the rest of each table is a parameter:
  \<^item> \<open>nfkd_ext\<close>: \<^verbatim>\<open>unicodedata.normalize("NFKD", s)\<close> for a string with a character
    outside Basic Latin (Basic Latin characters have no decomposition);
  \<^item> \<open>lower_ext\<close>, \<open>upper_ext\<close>: \<^verbatim>\<open>s.lower()\<close>, \<^verbatim>\<open>s.upper()\<close> for such a string;
  \<^item> \<open>alnum_ext\<close>: whether a character outside Basic Latin is alphanumeric
    (a word character for \<^verbatim>\<open>\w\<close> and \<^verbatim>\<open>\b\<close>);
  \<^item> \<open>decimal_ext\<close>: the value of a decimal digit outside Basic Latin (\<^verbatim>\<open>\d\<close>, \<^verbatim>\<open>int\<close>);
  \<^item> \<open>digit_ext\<close>: \<^verbatim>\<open>c.isdigit()\<close> for a character outside Basic Latin.
\<close>

record ucd =
  nfkd_ext :: "ustr \<Rightarrow> ustr"
  lower_ext :: "ustr \<Rightarrow> ustr"
  upper_ext :: "ustr \<Rightarrow> ustr"
  alnum_ext :: "cp \<Rightarrow> bool"
  decimal_ext :: "cp \<Rightarrow> nat option"
  digit_ext :: "cp \<Rightarrow> bool"

definition normalize_NFKD :: "ucd \<Rightarrow> ustr \<Rightarrow> ustr" where
  "normalize_NFKD U s = (if is_ascii s then s else nfkd_ext U s)"

definition str_lower :: "ucd \<Rightarrow> ustr \<Rightarrow> ustr" where
  "str_lower U s = (if is_ascii s then map ascii_lower s else lower_ext U s)"

definition ascii_upper :: "cp \<Rightarrow> cp" where
  "ascii_upper c = (if ascii_lower_letter c then c - 32 else c)"

definition str_upper :: "ucd \<Rightarrow> ustr \<Rightarrow> ustr" where
  "str_upper U s = (if is_ascii s then map ascii_upper s else upper_ext U s)"

definition char_isdigit :: "ucd \<Rightarrow> cp \<Rightarrow> bool" where
  "char_isdigit U c = (if c < 128 then ascii_digit c else digit_ext U c)"

definition is_word :: "ucd \<Rightarrow> cp \<Rightarrow> bool" where
  "is_word U c = (if c < 128 then ascii_alnum c \<or> c = 95 else alnum_ext U c)"

definition decimal :: "ucd \<Rightarrow> cp \<Rightarrow> nat option" where
  "decimal U c =
     (if c < 128 then (if ascii_digit c then Some (c - 48) else None) else decimal_ext U c)"

definition is_decimal :: "ucd \<Rightarrow> cp \<Rightarrow> bool" where
  "is_decimal U c = (decimal U c \<noteq> None)"

text \<open>\<^verbatim>\<open>s.encode("ascii", "ignore").decode("ascii")\<close>: the characters below 128.\<close>

definition encode_ascii_ignore :: "ustr \<Rightarrow> ustr" where
  "encode_ascii_ignore s = filter (\<lambda>c. c < 128) s"

text \<open>\<^verbatim>\<open>s.lstrip(chars)\<close>, \<^verbatim>\<open>s.rstrip(chars)\<close>, \<^verbatim>\<open>s.strip(chars)\<close> for a class of characters.\<close>

definition lstrip_by :: "(cp \<Rightarrow> bool) \<Rightarrow> ustr \<Rightarrow> ustr" where
  "lstrip_by P s = dropWhile P s"

definition rstrip_by :: "(cp \<Rightarrow> bool) \<Rightarrow> ustr \<Rightarrow> ustr" where
  "rstrip_by P s = rev (dropWhile P (rev s))"

definition strip_by :: "(cp \<Rightarrow> bool) \<Rightarrow> ustr \<Rightarrow> ustr" where
  "strip_by P s = rstrip_by P (lstrip_by P s)"

definition str_strip :: "ustr \<Rightarrow> ustr" where
  "str_strip s = strip_by isspace s"

definition str_rstrip :: "ustr \<Rightarrow> ustr" where
  "str_rstrip s = rstrip_by isspace s"

text \<open>\<^verbatim>\<open>s.startswith(p)\<close> and \<^verbatim>\<open>p in s\<close> (substring).\<close>

fun startswith :: "ustr \<Rightarrow> ustr \<Rightarrow> bool" where
  "startswith s [] = True"
| "startswith [] (p # ps) = False"
| "startswith (c # s) (p # ps) = (c = p \<and> startswith s ps)"

fun contains :: "ustr \<Rightarrow> ustr \<Rightarrow> bool" where
  "contains [] p = (p = [])"
| "contains (c # s) p = (startswith (c # s) p \<or> contains s p)"

section \<open>Regular expressions\<close>

text \<open>
  The patterns of the program are sequences of atoms; every repetition in them is over a
  single character class. An atom is
  \<^item> \<open>Ch P\<close>: one character of the class \<open>P\<close>;
  \<^item> \<open>Rep P lo hi greedy\<close>: between \<open>lo\<close> and \<open>hi\<close> characters of \<open>P\<close> (\<open>hi = None\<close>: no
    bound), most first when greedy (\<^verbatim>\<open>*\<close>, \<^verbatim>\<open>+\<close>, \<^verbatim>\<open>?\<close>, \<^verbatim>\<open>{m,n}\<close>), fewest first when
    lazy (\<^verbatim>\<open>*?\<close>);
  \<^item> \<open>WordB\<close>: \<^verbatim>\<open>\b\<close>;
  \<^item> \<open>Bol ml\<close>: \<^verbatim>\<open>^\<close>, \<open>Eol ml\<close>: \<^verbatim>\<open>$\<close>, with \<open>ml\<close> the flag \<^verbatim>\<open>re.MULTILINE\<close>.

  \<open>rx_match U pat prev s\<close> matches \<open>pat\<close> at a position of the subject whose previous
  character is \<open>prev\<close> (\<open>None\<close> at the start) and whose remaining text is \<open>s\<close>. It
  backtracks as the \<^verbatim>\<open>re\<close> module does and returns the first match found, as the
  list of the pieces consumed by each atom.
\<close>

datatype atom =
    Ch "cp \<Rightarrow> bool"
  | Rep "cp \<Rightarrow> bool" nat "nat option" bool
  | WordB
  | Bol bool
  | Eol bool

fun first_some :: "('a \<Rightarrow> 'b option) \<Rightarrow> 'a list \<Rightarrow> 'b option" where
  "first_some f [] = None"
| "first_some f (x # xs) = (case f x of Some y \<Rightarrow> Some y | None \<Rightarrow> first_some f xs)"

lemma first_some_cong [fundef_cong]:
  "xs = ys \<Longrightarrow> (\<And>x. x \<in> set ys \<Longrightarrow> f x = g x) \<Longrightarrow> first_some f xs = first_some g ys"
  by (induction ys arbitrary: xs) (auto split: option.splits)

definition rep_counts :: "nat \<Rightarrow> nat option \<Rightarrow> bool \<Rightarrow> nat \<Rightarrow> nat list" where
  "rep_counts lo hi greedy n =
     (let top = (case hi of None \<Rightarrow> n | Some h \<Rightarrow> min n h);
          ks = [lo ..< Suc top]
      in if greedy then rev ks else ks)"

definition prev_after :: "cp option \<Rightarrow> ustr \<Rightarrow> cp option" where
  "prev_after prev x = (if x = [] then prev else Some (last x))"

definition word_before :: "ucd \<Rightarrow> cp option \<Rightarrow> bool" where
  "word_before U prev = (case prev of None \<Rightarrow> False | Some c \<Rightarrow> is_word U c)"

definition word_after :: "ucd \<Rightarrow> ustr \<Rightarrow> bool" where
  "word_after U s = (case s of [] \<Rightarrow> False | c # _ \<Rightarrow> is_word U c)"

definition at_bol :: "bool \<Rightarrow> cp option \<Rightarrow> bool" where
  "at_bol ml prev \<longleftrightarrow> prev = None \<or> (ml \<and> prev = Some 10)"

definition at_eol :: "bool \<Rightarrow> ustr \<Rightarrow> bool" where
  "at_eol ml s \<longleftrightarrow> s = [] \<or> (if ml then hd s = 10 else s = [10])"

fun rx_match :: "ucd \<Rightarrow> atom list \<Rightarrow> cp option \<Rightarrow> ustr \<Rightarrow> ustr list option" where
  "rx_match U [] prev s = Some []"
| "rx_match U (Ch P # as) prev s =
     (case s of
        [] \<Rightarrow> None
      | c # s' \<Rightarrow> if P c then map_option ((#) [c]) (rx_match U as (Some c) s') else None)"
| "rx_match U (Rep P lo hi greedy # as) prev s =
     first_some
       (\<lambda>k. map_option ((#) (take k s))
              (rx_match U as (prev_after prev (take k s)) (drop k s)))
       (rep_counts lo hi greedy (length (takeWhile P s)))"
| "rx_match U (WordB # as) prev s =
     (if word_before U prev \<noteq> word_after U s
      then map_option ((#) []) (rx_match U as prev s) else None)"
| "rx_match U (Bol ml # as) prev s =
     (if at_bol ml prev then map_option ((#) []) (rx_match U as prev s) else None)"
| "rx_match U (Eol ml # as) prev s =
     (if at_eol ml s then map_option ((#) []) (rx_match U as prev s) else None)"

text \<open>\<^verbatim>\<open>re.match\<close>: at the start of the subject.\<close>

definition re_match :: "ucd \<Rightarrow> atom list \<Rightarrow> ustr \<Rightarrow> ustr list option" where
  "re_match U pat s = rx_match U pat None s"

text \<open>\<^verbatim>\<open>re.search\<close>: the match at the leftmost position that has one.\<close>

fun search_from :: "ucd \<Rightarrow> atom list \<Rightarrow> cp option \<Rightarrow> ustr \<Rightarrow> ustr list option" where
  "search_from U pat prev s =
     (case rx_match U pat prev s of
        Some ps \<Rightarrow> Some ps
      | None \<Rightarrow> (case s of [] \<Rightarrow> None | c # s' \<Rightarrow> search_from U pat (Some c) s'))"

definition re_search :: "ucd \<Rightarrow> atom list \<Rightarrow> ustr \<Rightarrow> ustr list option" where
  "re_search U pat s = search_from U pat None s"

lemma first_some_SomeD:
  "first_some f ks = Some y \<Longrightarrow> \<exists>k \<in> set ks. f k = Some y"
  by (induction ks) (auto split: option.splits)

lemma rx_match_prefix:
  "rx_match U pat prev s = Some ps \<Longrightarrow> \<exists>r. s = concat ps @ r"
proof (induction pat arbitrary: prev s ps)
  case Nil
  then show ?case by simp
next
  case (Cons a pat)
  show ?case
  proof (cases a)
    case (Ch P)
    then show ?thesis
      using Cons.prems Cons.IH by (fastforce split: list.splits if_splits)
  next
    case (Rep P lo hi greedy)
    then obtain k qs where ps: "ps = take k s # qs"
      and qs: "rx_match U pat (prev_after prev (take k s)) (drop k s) = Some qs"
      using Cons.prems by (auto dest!: first_some_SomeD)
    from Cons.IH[OF qs] obtain r where "drop k s = concat qs @ r" ..
    then have "s = concat ps @ r"
      using ps by (metis append_take_drop_id append.assoc concat.simps(2))
    then show ?thesis ..
  next
    case WordB
    then show ?thesis
      using Cons.prems Cons.IH by (fastforce split: if_splits)
  next
    case (Bol ml)
    then show ?thesis
      using Cons.prems Cons.IH by (fastforce split: if_splits)
  next
    case (Eol ml)
    then show ?thesis
      using Cons.prems Cons.IH by (fastforce split: if_splits)
  qed
qed

text \<open>
  \<^verbatim>\<open>re.sub(pat, rep, s)\<close> with a constant replacement: the leftmost matches, left to
  right, none overlapping. After an empty match the next character is copied. (No
  pattern that the program substitutes can match the empty string.)
\<close>

function sub_from :: "ucd \<Rightarrow> atom list \<Rightarrow> ustr \<Rightarrow> cp option \<Rightarrow> ustr \<Rightarrow> ustr" where
  "sub_from U pat rep prev s =
     (case rx_match U pat prev s of
        Some ps \<Rightarrow>
          if concat ps = []
          then rep @ (case s of [] \<Rightarrow> [] | c # s' \<Rightarrow> c # sub_from U pat rep (Some c) s')
          else rep @ sub_from U pat rep (Some (last (concat ps))) (drop (length (concat ps)) s)
      | None \<Rightarrow> (case s of [] \<Rightarrow> [] | c # s' \<Rightarrow> c # sub_from U pat rep (Some c) s'))"
  by pat_completeness auto
termination
proof (relation "measure (\<lambda>(U, pat, rep, prev, s). length s)")
  show "wf (measure (\<lambda>(U, pat, rep, prev, s). length s))" by simp
next
  fix U :: ucd and pat :: "atom list" and rep :: ustr and prev :: "cp option"
    and s :: ustr and ps :: "ustr list"
  assume "rx_match U pat prev s = Some ps" "concat ps \<noteq> []"
  then obtain r where "s = concat ps @ r" "concat ps \<noteq> []"
    using rx_match_prefix by blast
  then have "length (drop (length (concat ps)) s) < length s"
    by (cases "concat ps") auto
  then show "((U, pat, rep, Some (last (concat ps)), drop (length (concat ps)) s),
              (U, pat, rep, prev, s)) \<in> measure (\<lambda>(U, pat, rep, prev, s). length s)"
    by simp
qed auto

definition re_sub :: "ucd \<Rightarrow> atom list \<Rightarrow> ustr \<Rightarrow> ustr \<Rightarrow> ustr" where
  "re_sub U pat rep s = sub_from U pat rep None s"

declare rx_match.simps [simp del] search_from.simps [simp del] sub_from.simps [simp del]

text \<open>
  A literal character under \<^verbatim>\<open>re.IGNORECASE\<close>: the subject character matches when its
  lowercase is the pattern's. For a Basic Latin pattern letter these are its two cases,
  and U+0130, U+0131 for \<^verbatim>\<open>i\<close>, U+017F for \<^verbatim>\<open>s\<close>, U+212A for \<^verbatim>\<open>k\<close>.
\<close>

definition ci :: "cp \<Rightarrow> cp \<Rightarrow> bool" where
  "ci p t \<longleftrightarrow>
     ascii_lower t = ascii_lower p \<or>
     (ascii_lower p = 105 \<and> (t = 304 \<or> t = 305)) \<or>
     (ascii_lower p = 115 \<and> t = 383) \<or>
     (ascii_lower p = 107 \<and> t = 8490)"

definition lit :: "string \<Rightarrow> atom list" where
  "lit s = map (\<lambda>c. Ch (\<lambda>t. t = of_char c)) s"

definition lit_i :: "string \<Rightarrow> atom list" where
  "lit_i s = map (\<lambda>c. Ch (ci (of_char c))) s"

text \<open>Unfolding rules for evaluating the definitions above on concrete strings.\<close>

lemmas char_eval = u_def isspace_def ascii_upper_letter_def ascii_lower_letter_def
  ascii_digit_def ascii_alnum_def az09_def ascii_lower_def ascii_upper_def is_ascii_def ci_def

lemmas str_eval = normalize_NFKD_def str_lower_def str_upper_def char_isdigit_def is_word_def decimal_def is_decimal_def
  encode_ascii_ignore_def lstrip_by_def rstrip_by_def strip_by_def str_strip_def
  str_rstrip_def

lemmas rx_eval = rx_match.simps search_from.simps sub_from.simps rep_counts_def
  prev_after_def word_before_def word_after_def at_bol_def at_eol_def re_match_def
  re_search_def re_sub_def lit_def lit_i_def Let_def

section \<open>Slugs and placements\<close>

text \<open>
  \<^verbatim>\<open>slugify\<close>: NFKD, drop what is not ASCII, lowercase, \<^verbatim>\<open>re.sub(r"[^a-z0-9]+", "_", text)\<close>,
  \<^verbatim>\<open>re.sub(r"_+", "_", text).strip("_")\<close>.
\<close>

definition slugify :: "ucd \<Rightarrow> ustr \<Rightarrow> ustr" where
  "slugify U text0 =
     (let text1 = normalize_NFKD U text0;
          text2 = encode_ascii_ignore text1;
          text3 = str_lower U text2;
          text4 = re_sub U [Rep (\<lambda>c. \<not> az09 c) 1 None True] (u ''_'') text3
      in strip_by (\<lambda>c. c = 95) (re_sub U [Rep (\<lambda>c. c = 95) 1 None True] (u ''_'') text4))"

definition placement_to_filename :: "ucd \<Rightarrow> ustr \<Rightarrow> ustr" where
  "placement_to_filename U placement =
     (let normalized = slugify U (str_strip placement)
      in if normalized = u ''champion'' \<or> normalized = u ''winner'' then u ''1st''
         else if normalized = u ''runner_up'' then u ''2nd''
         else if normalized \<noteq> [] then normalized
         else u ''unknown_placement'')"

text \<open>
  A sample of the tables beyond Basic Latin, for evaluating the program on concrete
  strings: U+2122 TRADE MARK SIGN has the compatibility decomposition \<^verbatim>\<open>TM\<close>, U+00E9 is
  \<^verbatim>\<open>e\<close> followed by U+0301; no other entry is used.
\<close>

definition ucd_sample :: ucd where
  "ucd_sample =
     \<lparr> nfkd_ext = (\<lambda>s. concat (map (\<lambda>c. if c = 8482 then [84, 77]
                                        else if c = 233 then [101, 769] else [c]) s)),
       lower_ext = map ascii_lower,
       upper_ext = map ascii_upper,
       alnum_ext = (\<lambda>c. c = 233),
       decimal_ext = (\<lambda>c. None),
       digit_ext = (\<lambda>c. False) \<rparr>"


section \<open>Properties of slugs\<close>

lemma length_dropWhile_less [termination_simp]:
  "length (dropWhile P s) < Suc (length s)"
  by (simp add: length_dropWhile_le le_imp_less_Suc)

text \<open>
  Substituting for the runs of one character class (\<^verbatim>\<open>re.sub(r"[class]+", rep, s)\<close>),
  written as a recursion on the subject; \<open>sub_from_plus\<close> shows that the matcher
  computes it.
\<close>

fun squeeze :: "(cp \<Rightarrow> bool) \<Rightarrow> ustr \<Rightarrow> ustr \<Rightarrow> ustr" where
  "squeeze P rep [] = []"
| "squeeze P rep (c # s) =
     (if P c then rep @ squeeze P rep (dropWhile P s) else c # squeeze P rep s)"

lemma rx_match_plus:
  "rx_match U [Rep P (Suc 0) None True] prev s =
     (case s of [] \<Rightarrow> None | c # s' \<Rightarrow> if P c then Some [takeWhile P s] else None)"
proof -
  define n where "n = length (takeWhile P s)"
  have m: "rx_match U [Rep P (Suc 0) None True] prev s
             = first_some (\<lambda>k. Some [take k s]) (rep_counts (Suc 0) None True n)"
    by (simp add: n_def rx_match.simps)
  show ?thesis
  proof (cases n)
    case 0
    then have "rep_counts (Suc 0) None True n = []" by (simp add: rep_counts_def)
    moreover have "s = [] \<or> \<not> P (hd s)"
      using 0 by (cases s) (auto simp: n_def split: if_splits)
    ultimately show ?thesis using m by (cases s) auto
  next
    case (Suc k)
    then have "rep_counts (Suc 0) None True n = n # rev [Suc 0 ..< n]"
      by (simp add: rep_counts_def)
    moreover have "take n s = takeWhile P s"
      unfolding n_def by (rule takeWhile_eq_take[symmetric])
    moreover have "s \<noteq> [] \<and> P (hd s)"
      using Suc by (cases s) (auto simp: n_def split: if_splits)
    ultimately show ?thesis using m by (cases s) auto
  qed
qed

lemma sub_from_plus:
  "sub_from U [Rep P (Suc 0) None True] rep prev s = squeeze P rep s"
proof (induction "length s" arbitrary: s prev rule: less_induct)
  case less
  show ?case
  proof (cases s)
    case Nil
    then show ?thesis by (subst sub_from.simps) (simp add: rx_match_plus)
  next
    case (Cons c s')
    show ?thesis
    proof (cases "P c")
      case False
      then show ?thesis
        using Cons less[of s'] by (subst sub_from.simps) (simp add: rx_match_plus)
    next
      case True
      have d: "drop (length (takeWhile P s)) s = dropWhile P s"
        by (simp add: dropWhile_eq_drop)
      have "length (dropWhile P s') < length s"
        using Cons by (simp add: le_imp_less_Suc length_dropWhile_le)
      then have "sub_from U [Rep P (Suc 0) None True] rep q (dropWhile P s') = squeeze P rep (dropWhile P s')" for q
        using less by blast
      then show ?thesis
        using Cons True d by (subst sub_from.simps) (simp add: rx_match_plus)
    qed
  qed
qed


fun no_double :: "ustr \<Rightarrow> bool" where
  "no_double (a # b # s) = ((a \<noteq> 95 \<or> b \<noteq> 95) \<and> no_double (b # s))"
| "no_double s = True"

definition is_slug :: "ustr \<Rightarrow> bool" where
  "is_slug s \<longleftrightarrow> (\<forall>c \<in> set s. az09 c \<or> c = 95) \<and> no_double s \<and>
     (s \<noteq> [] \<longrightarrow> hd s \<noteq> 95 \<and> last s \<noteq> 95)"

lemma no_double_Cons: "a \<noteq> 95 \<Longrightarrow> no_double s \<Longrightarrow> no_double (a # s)"
  by (cases s) auto

lemma no_double_tl: "no_double (a # s) \<Longrightarrow> no_double s"
  by (cases s) auto

lemma no_double_append: "no_double (xs @ ys) \<Longrightarrow> no_double xs \<and> no_double ys"
  by (induction xs rule: no_double.induct) (auto dest: no_double_tl)

lemma dropWhile_hd_id: "xs \<noteq> [] \<Longrightarrow> \<not> P (hd xs) \<Longrightarrow> dropWhile P xs = xs"
  by (cases xs) auto

lemma set_squeeze: "set (squeeze P [r] s) \<subseteq> {c. \<not> P c} \<union> {r}"
proof (induction P "[r]" s rule: squeeze.induct)
  case (2 P c s)
  then show ?case by auto
qed simp

lemma squeeze_hd: "\<not> P c \<Longrightarrow> squeeze P rep (c # s) = c # squeeze P rep s"
  by simp

lemma no_double_squeeze: "P 95 \<Longrightarrow> no_double (squeeze P [95] s)"
proof (induction P "[95::nat]" s rule: squeeze.induct)
  case (1 P)
  then show ?case by simp
next
  case (2 P c s)
  show ?case
  proof (cases "P c")
    case False
    then show ?thesis using 2 by (auto intro: no_double_Cons)
  next
    case True
    have nd: "no_double (squeeze P [95] (dropWhile P s))" using 2 True by simp
    have sq: "squeeze P [95] (c # s) = 95 # squeeze P [95] (dropWhile P s)"
      using True by simp
    show ?thesis
    proof (cases "dropWhile P s")
      case Nil
      show ?thesis unfolding sq Nil by simp
    next
      case (Cons d t)
      then have "\<not> P d" using hd_dropWhile[of P s] by auto
      then have "d \<noteq> 95" using 2(3) by auto
      then show ?thesis using nd \<open>\<not> P d\<close> unfolding sq Cons by simp
    qed
  qed
qed

lemma squeeze_id:
  "(\<forall>c \<in> set t. P c \<longrightarrow> c = 95) \<Longrightarrow> no_double t \<Longrightarrow> squeeze P [95] t = t"
  by (induction t rule: no_double.induct) auto

lemma strip_by_set: "set (strip_by P s) \<subseteq> set s"
  unfolding strip_by_def rstrip_by_def lstrip_by_def
  by (metis set_dropWhileD set_rev subsetI)

lemma rstrip_by_prefix: "rstrip_by P s @ rev (takeWhile P (rev s)) = s"
  unfolding rstrip_by_def
  by (metis rev_append rev_rev_ident takeWhile_dropWhile_id)

lemma strip_by_no_double: "no_double s \<Longrightarrow> no_double (strip_by P s)"
proof -
  assume a: "no_double s"
  have "no_double (dropWhile P s)"
    using a no_double_append[of "takeWhile P s" "dropWhile P s"] by simp
  then show ?thesis
    unfolding strip_by_def lstrip_by_def
    using no_double_append[of "rstrip_by P (dropWhile P s)"
        "rev (takeWhile P (rev (dropWhile P s)))"]
    by (simp add: rstrip_by_prefix)
qed

lemma strip_by_ends:
  assumes "strip_by P s \<noteq> []"
  shows "\<not> P (hd (strip_by P s))" "\<not> P (last (strip_by P s))"
proof -
  let ?d = "dropWhile P s"
  have ne: "dropWhile P (rev ?d) \<noteq> []"
    using assms by (simp add: strip_by_def rstrip_by_def lstrip_by_def)
  then have l: "\<not> P (hd (dropWhile P (rev ?d)))" by (rule hd_dropWhile)
  show "\<not> P (last (strip_by P s))"
    using l ne by (simp add: strip_by_def rstrip_by_def lstrip_by_def last_rev)
  have dne: "?d \<noteq> []"
  proof
    assume e: "?d = []"
    show False using ne unfolding e by simp
  qed
  then have h: "\<not> P (hd ?d)" by (rule hd_dropWhile)
  have "rstrip_by P ?d \<noteq> []" using assms by (simp add: strip_by_def lstrip_by_def)
  then have "hd (rstrip_by P ?d) = hd ?d"
    using rstrip_by_prefix[of P ?d] by (metis hd_append2)
  then show "\<not> P (hd (strip_by P s))"
    using h by (simp add: strip_by_def lstrip_by_def)
qed

lemma strip_by_id:
  "s = [] \<or> (\<not> P (hd s) \<and> \<not> P (last s)) \<Longrightarrow> strip_by P s = s"
proof (cases s)
  case Nil
  then show ?thesis by (simp add: strip_by_def rstrip_by_def lstrip_by_def)
next
  case (Cons c t)
  assume "s = [] \<or> (\<not> P (hd s) \<and> \<not> P (last s))"
  then have h: "\<not> P (hd s)" "\<not> P (last s)" using Cons by auto
  have "dropWhile P s = s" using h Cons by simp
  moreover have "dropWhile P (rev s) = rev s"
  proof (rule dropWhile_hd_id)
    have sne: "s \<noteq> []" using Cons by simp
    then show "rev s \<noteq> []" by simp
    have "hd (rev s) = last s" using sne by (simp add: hd_rev)
    then show "\<not> P (hd (rev s))" using h by simp
  qed
  ultimately show ?thesis by (simp add: strip_by_def rstrip_by_def lstrip_by_def)
qed

lemma slugify_squeeze:
  "slugify U x =
     strip_by (\<lambda>c. c = 95) (squeeze (\<lambda>c. c = 95) [95]
       (squeeze (\<lambda>c. \<not> az09 c) [95]
          (str_lower U (encode_ascii_ignore (normalize_NFKD U x)))))"
  by (simp add: slugify_def re_sub_def sub_from_plus u_def Let_def)

lemma not_az09_95: "\<not> az09 95"
  by (simp add: az09_def ascii_lower_letter_def ascii_digit_def)

lemma is_slug_slugify: "is_slug (slugify U x)"
proof -
  define a where "a = str_lower U (encode_ascii_ignore (normalize_NFKD U x))"
  define b where "b = squeeze (\<lambda>c. \<not> az09 c) [95] a"
  have b1: "\<forall>c \<in> set b. az09 c \<or> c = 95"
    using set_squeeze[of "\<lambda>c. \<not> az09 c" 95 a] by (auto simp: b_def)
  have b2: "no_double b"
    unfolding b_def by (rule no_double_squeeze) (simp add: not_az09_95)
  have c: "squeeze (\<lambda>c. c = 95) [95] b = b"
    using b2 by (intro squeeze_id) auto
  have s: "slugify U x = strip_by (\<lambda>c. c = 95) b"
    by (simp only: slugify_squeeze a_def[symmetric] b_def[symmetric] c)
  show ?thesis
    unfolding is_slug_def s
    using b1 strip_by_set[of "\<lambda>c. c = 95" b] strip_by_no_double[OF b2, of "\<lambda>c. c = 95"]
      strip_by_ends[of "\<lambda>c. c = 95" b]
    by auto
qed

lemma slugify_is_slug: "is_slug s \<Longrightarrow> slugify U s = s"
proof -
  assume a: "is_slug s"
  then have chars: "\<forall>c \<in> set s. az09 c \<or> c = 95" and nd: "no_double s"
    and ends: "s = [] \<or> (hd s \<noteq> 95 \<and> last s \<noteq> 95)"
    by (auto simp: is_slug_def)
  have asc: "is_ascii s"
    using chars by (auto simp: is_ascii_def list_all_iff az09_def ascii_lower_letter_def ascii_digit_def)
  have low: "map ascii_lower s = s"
    using chars
    by (intro map_idI)
       (auto simp: ascii_lower_def ascii_upper_letter_def az09_def ascii_lower_letter_def ascii_digit_def)
  have enc: "encode_ascii_ignore s = s"
    using asc by (simp add: encode_ascii_ignore_def is_ascii_def list_all_iff)
  have a1: "str_lower U (encode_ascii_ignore (normalize_NFKD U s)) = s"
    using asc low enc by (simp add: normalize_NFKD_def str_lower_def)
  have s1: "squeeze (\<lambda>c. \<not> az09 c) [95] s = s"
    using chars nd by (intro squeeze_id) auto
  have s2: "squeeze (\<lambda>c. c = 95) [95] s = s"
    using nd by (intro squeeze_id) auto
  show ?thesis
    using ends by (simp add: slugify_squeeze a1 s1 s2 strip_by_id)
qed

lemma squeeze_all: "\<forall>c \<in> set s. P c \<Longrightarrow> squeeze P rep s = (if s = [] then [] else rep)"
proof (cases s)
  case Nil
  then show ?thesis by simp
next
  case (Cons c t)
  assume "\<forall>c \<in> set s. P c"
  then have "P c" and d: "dropWhile P t = []" using Cons by auto
  then have "squeeze P rep (c # t) = rep @ squeeze P rep []"
    unfolding squeeze.simps d by simp
  then show ?thesis using Cons by simp
qed

lemma slugify_no_alnum:
  assumes "\<forall>c \<in> set (normalize_NFKD U x). \<not> ascii_alnum c"
  shows "slugify U x = []"
proof -
  define e where "e = encode_ascii_ignore (normalize_NFKD U x)"
  have asc: "is_ascii e" by (simp add: e_def encode_ascii_ignore_def is_ascii_def list_all_iff)
  have "\<forall>c \<in> set e. \<not> ascii_alnum c" using assms by (simp add: e_def encode_ascii_ignore_def)
  then have "\<forall>c \<in> set (map ascii_lower e). \<not> az09 c"
    by (auto simp: ascii_lower_def ascii_alnum_def az09_def split: if_splits)
  then have "squeeze (\<lambda>c. \<not> az09 c) [95] (str_lower U e) = (if e = [] then [] else [95])"
    using asc by (simp add: str_lower_def squeeze_all)
  then show ?thesis
    by (simp add: slugify_squeeze e_def[symmetric] strip_by_def rstrip_by_def lstrip_by_def)
qed


text \<open>
  C10. \<^verbatim>\<open>placement_to_filename\<close> never returns the empty string: an empty slug becomes
  \<^verbatim>\<open>unknown_placement\<close>, so the first character of the result can always be read.
\<close>

theorem placement_to_filename_nonempty:
  "placement_to_filename U placement \<noteq> [] \<and>
   (\<exists>c rest. placement_to_filename U placement = c # rest)"
proof -
  have "placement_to_filename U placement \<noteq> []"
    by (simp add: placement_to_filename_def Let_def u_def)
  then show ?thesis by (cases "placement_to_filename U placement") auto
qed

theorem placement_to_filename_nonempty_witness:
  "placement_to_filename ucd_sample (u ''?!'') = u ''unknown_placement''
   \<and> placement_to_filename ucd_sample (u ''?!'') \<noteq> []"
proof -
  have "placement_to_filename ucd_sample (u ''?!'') = u ''unknown_placement''"
    by (simp add: placement_to_filename_def slugify_squeeze char_eval str_eval)
  then show ?thesis
    using placement_to_filename_nonempty [of ucd_sample "u ''?!''"] by simp
qed

text \<open>
  C7 (as amended). \<^verbatim>\<open>slugify\<close> is a total function and idempotent, and it returns the
  empty string for every input whose NFKD form has no ASCII letter or digit: the empty
  string and every string of ASCII symbols among them. (A symbol whose compatibility
  decomposition has letters, such as U+2122, gives a non-empty slug.)
\<close>

theorem slugify_idempotent_empty:
  "slugify U (slugify U x) = slugify U x \<and>
   ((\<forall>c \<in> set (normalize_NFKD U x). \<not> ascii_alnum c) \<longrightarrow> slugify U x = []) \<and>
   (is_ascii x \<and> (\<forall>c \<in> set x. \<not> ascii_alnum c) \<longrightarrow> slugify U x = [])"
proof -
  have "slugify U (slugify U x) = slugify U x"
    by (rule slugify_is_slug) (rule is_slug_slugify)
  moreover have "slugify U x = []" if "\<forall>c \<in> set (normalize_NFKD U x). \<not> ascii_alnum c"
    using that by (rule slugify_no_alnum)
  moreover have "slugify U x = []" if "is_ascii x \<and> (\<forall>c \<in> set x. \<not> ascii_alnum c)"
    using that by (intro slugify_no_alnum) (simp add: normalize_NFKD_def)
  ultimately show ?thesis by blast
qed

theorem slugify_idempotent_empty_witness:
  "slugify ucd_sample (slugify ucd_sample (u ''Top 4'')) = slugify ucd_sample (u ''Top 4'')
   \<and> slugify ucd_sample (u ''?! -'') = []
   \<and> slugify ucd_sample [] = []"
proof -
  have h: "is_ascii (u ''?! -'') \<and> list_all (\<lambda>c. \<not> ascii_alnum c) (u ''?! -'')"
    by (simp add: char_eval)
  show ?thesis
    using slugify_idempotent_empty [of ucd_sample "u ''Top 4''"]
      slugify_idempotent_empty [of ucd_sample "u ''?! -''"]
      slugify_idempotent_empty [of ucd_sample "[]"] h
    by (simp add: is_ascii_def list_all_iff)
qed

text \<open>
  The claim as stated fails at the one-character string U+2122 (TRADE MARK SIGN, a symbol,
  not alphanumeric): NFKD turns it into \<^verbatim>\<open>TM\<close> and the slug is \<^verbatim>\<open>tm\<close>.
\<close>

theorem slugify_symbol_counterexample:
  "list_all (\<lambda>c. \<not> ascii_alnum c) [8482] \<and> slugify ucd_sample [8482] = u ''tm''
   \<and> slugify ucd_sample [8482] \<noteq> []"
  by (simp add: slugify_squeeze ucd_sample_def char_eval str_eval)


section \<open>The content filter\<close>

text \<open>
  \<^verbatim>\<open>has_banned_move_or_ability\<close> searches the team text for
  \<^verbatim>\<open>^\s*Ability:\s*Illusion\s*$\<close> and then for the same pattern with \<^verbatim>\<open>Commander\<close>, both
  with \<^verbatim>\<open>re.IGNORECASE | re.MULTILINE\<close>.
\<close>

definition ability_line :: "string \<Rightarrow> atom list" where
  "ability_line name =
     [Bol True, Rep isspace 0 None True] @ lit_i ''Ability:'' @
     [Rep isspace 0 None True] @ lit_i name @ [Rep isspace 0 None True, Eol True]"

definition has_banned_move_or_ability :: "ucd \<Rightarrow> ustr \<Rightarrow> bool" where
  "has_banned_move_or_ability U team_text =
     (if re_search U (ability_line ''Illusion'') team_text \<noteq> None then True
      else if re_search U (ability_line ''Commander'') team_text \<noteq> None then True
      else False)"

lemma first_some_exists: "k \<in> set ks \<Longrightarrow> f k \<noteq> None \<Longrightarrow> first_some f ks \<noteq> None"
  by (induction ks) (auto split: option.splits)

lemma search_from_complete:
  "rx_match U pat (prev_after prev pre) s \<noteq> None \<Longrightarrow> search_from U pat prev (pre @ s) \<noteq> None"
proof (induction pre arbitrary: prev)
  case Nil
  then show ?case by (auto simp: search_from.simps prev_after_def split: option.splits)
next
  case (Cons c pre)
  have "prev_after prev (c # pre) = prev_after (Some c) pre"
    by (simp add: prev_after_def)
  then have "search_from U pat (Some c) (pre @ s) \<noteq> None"
    using Cons by simp
  then show ?case
    by (subst search_from.simps) (auto split: option.splits)
qed

lemma rx_match_Ch_ok:
  "P c \<Longrightarrow> rx_match U as (Some c) s \<noteq> None \<Longrightarrow> rx_match U (Ch P # as) prev (c # s) \<noteq> None"
  by (auto simp: rx_match.simps)

lemma rx_match_chars_ok:
  "list_all2 (\<lambda>P c. P c) Ps a \<Longrightarrow> rx_match U as (prev_after prev a) s \<noteq> None
   \<Longrightarrow> rx_match U (map Ch Ps @ as) prev (a @ s) \<noteq> None"
proof (induction Ps a arbitrary: prev rule: list_all2_induct)
  case Nil
  then show ?case by (simp add: prev_after_def)
next
  case (Cons P Ps c a)
  have "prev_after prev (c # a) = prev_after (Some c) a" by (simp add: prev_after_def)
  then have "rx_match U (map Ch Ps @ as) (Some c) (a @ s) \<noteq> None"
    using Cons by simp
  then show ?case using Cons.hyps(1) by (simp add: rx_match_Ch_ok)
qed

lemma rx_match_lit_i_ok:
  "list_all2 ci (u l) a \<Longrightarrow> rx_match U as (prev_after prev a) s \<noteq> None
   \<Longrightarrow> rx_match U (lit_i l @ as) prev (a @ s) \<noteq> None"
  using rx_match_chars_ok[of "map ci (u l)" a U as prev s]
  by (simp add: lit_i_def u_def list_all2_map1 comp_def)

lemma set_rep_counts:
  "set (rep_counts lo hi gr n) =
     {k. lo \<le> k \<and> k \<le> (case hi of None \<Rightarrow> n | Some h \<Rightarrow> min n h)}"
  by (auto simp: rep_counts_def Let_def)

lemma rx_match_star_ok:
  assumes "list_all P w" "rx_match U as (prev_after prev w) s \<noteq> None"
  shows "rx_match U (Rep P 0 None gr # as) prev (w @ s) \<noteq> None"
proof -
  define n where "n = length (takeWhile P (w @ s))"
  have "takeWhile P (w @ s) = w @ takeWhile P s"
    using assms(1) by (simp add: list_all_iff)
  then have le: "length w \<le> n" by (simp add: n_def)
  then have "length w \<in> set (rep_counts 0 None gr n)"
    by (simp add: set_rep_counts)
  then show ?thesis
    unfolding rx_match.simps n_def[symmetric]
    by (rule first_some_exists) (use assms(2) in simp)
qed


lemma ability_line_ok:
  assumes "pre = [] \<or> last pre = 10" "post = [] \<or> hd post = 10"
    and "list_all isspace w1" "list_all isspace w2" "list_all isspace w3"
    and "list_all2 ci (u ''Ability:'') a" "list_all2 ci (u name) b"
  shows "re_search U (ability_line name) (pre @ w1 @ a @ w2 @ b @ w3 @ post) \<noteq> None"
proof -
  have e: "rx_match U [Eol True] q post \<noteq> None" for q
    using assms(2) by (auto simp: rx_match.simps at_eol_def)
  have 5: "rx_match U [Rep isspace 0 None True, Eol True] q (w3 @ post) \<noteq> None" for q
    using assms(5) e by (rule rx_match_star_ok)
  have 4: "rx_match U (lit_i name @ [Rep isspace 0 None True, Eol True]) q (b @ w3 @ post) \<noteq> None" for q
    using assms(7) 5 by (rule rx_match_lit_i_ok)
  have 3: "rx_match U (Rep isspace 0 None True # lit_i name @ [Rep isspace 0 None True, Eol True]) q
             (w2 @ b @ w3 @ post) \<noteq> None" for q
    using assms(4) 4 by (rule rx_match_star_ok)
  have 2: "rx_match U (lit_i ''Ability:'' @ Rep isspace 0 None True # lit_i name @ [Rep isspace 0 None True, Eol True]) q
             (a @ w2 @ b @ w3 @ post) \<noteq> None" for q
    using assms(6) 3 by (rule rx_match_lit_i_ok)
  have 1: "rx_match U (Rep isspace 0 None True # lit_i ''Ability:'' @ Rep isspace 0 None True # lit_i name @ [Rep isspace 0 None True, Eol True]) q
             (w1 @ a @ w2 @ b @ w3 @ post) \<noteq> None" for q
    using assms(3) 2 by (rule rx_match_star_ok)
  have "at_bol True (prev_after None pre)"
    using assms(1) by (auto simp: at_bol_def prev_after_def)
  then have "rx_match U (ability_line name) (prev_after None pre) (w1 @ a @ w2 @ b @ w3 @ post) \<noteq> None"
    using 1 by (simp add: ability_line_def rx_match.simps)
  then show ?thesis
    unfolding re_search_def by (rule search_from_complete)
qed


text \<open>
  C3 (as amended). A team text fails the content filter whenever one of its lines is
  \<^verbatim>\<open>Ability: Illusion\<close> and nothing else: in any letter case, with optional whitespace
  before it, after the colon and after it, whatever the text before and after the line.
\<close>

theorem has_banned_illusion_line:
  assumes "pre = [] \<or> last pre = 10" and "post = [] \<or> hd post = 10"
    and "list_all isspace w1" and "list_all isspace w2" and "list_all isspace w3"
    and "list_all2 ci (u ''Ability:'') a" and "list_all2 ci (u ''Illusion'') b"
  shows "has_banned_move_or_ability U (pre @ w1 @ a @ w2 @ b @ w3 @ post)"
  using ability_line_ok[OF assms] by (simp add: has_banned_move_or_ability_def)

theorem has_banned_illusion_line_witness:
  "has_banned_move_or_ability ucd_sample
     ((u ''Zoroark @ Focus Sash'' @ [10]) @ u ''  '' @ u ''ability:'' @ [] @ u ''ILLUSION''
        @ [32, 9] @ ([10] @ u ''Level: 50''))"
proof (rule has_banned_illusion_line)
  show "u ''Zoroark @ Focus Sash'' @ [10] = [] \<or> last (u ''Zoroark @ Focus Sash'' @ [10]) = 10"
    by simp
  show "[10] @ u ''Level: 50'' = [] \<or> hd ([10] @ u ''Level: 50'') = 10"
    by simp
  show "list_all isspace (u ''  '')" by (simp add: char_eval)
  show "list_all isspace []" by simp
  show "list_all isspace [32, 9]" by (simp add: char_eval)
  show "list_all2 ci (u ''Ability:'') (u ''ability:'')" by (simp add: char_eval)
  show "list_all2 ci (u ''Illusion'') (u ''ILLUSION'')" by (simp add: char_eval)
qed

text \<open>
  The claim as stated fails when the line goes on after \<^verbatim>\<open>Ability: Illusion\<close>: the text
  contains the substring and passes the filter.
\<close>

theorem has_banned_trailing_counterexample:
  "contains (u ''Zoroark'' @ [10] @ u ''Ability: Illusion (Hisui)'') (u ''Ability: Illusion'')
   \<and> \<not> has_banned_move_or_ability ucd_sample
          (u ''Zoroark'' @ [10] @ u ''Ability: Illusion (Hisui)'')"
  by (simp add: has_banned_move_or_ability_def ability_line_def rx_eval char_eval)


section \<open>Dates, event keys and directory names\<close>

text \<open>
  \<^verbatim>\<open>normalize_event_name\<close>: strip, delete \<^verbatim>\<open>\bregional\s+championships?\b\<close>, delete
  \<^verbatim>\<open>\bregionals?\b\<close> (both ignoring case), replace \<^verbatim>\<open>\s+\<close> by one space, strip.
\<close>

definition normalize_event_name :: "ucd \<Rightarrow> ustr \<Rightarrow> ustr" where
  "normalize_event_name U event_name =
     (let name0 = str_strip event_name;
          name1 = re_sub U
            ([WordB] @ lit_i ''regional'' @ [Rep isspace 1 None True] @ lit_i ''championship''
               @ [Rep (ci 115) 0 (Some 1) True, WordB]) [] name0;
          name2 = re_sub U
            ([WordB] @ lit_i ''regional'' @ [Rep (ci 115) 0 (Some 1) True, WordB]) [] name1
      in str_strip (re_sub U [Rep isspace 1 None True] (u '' '') name2))"

text \<open>\<^verbatim>\<open>s.replace(old, new)\<close> for a non-empty \<open>old\<close>: the occurrences from the left, none overlapping.\<close>

fun str_replace :: "ustr \<Rightarrow> ustr \<Rightarrow> ustr \<Rightarrow> ustr" where
  "str_replace old new [] = []"
| "str_replace old new (c # s) =
     (if old \<noteq> [] \<and> startswith (c # s) old
      then new @ str_replace old new (drop (length old - 1) s)
      else c # str_replace old new s)"

record date =
  year :: nat
  month :: nat
  day :: nat

datatype fmt_item = Fd | Fb | FB | FY | Fws | Fchr cp

definition month_abbrs :: "string list" where
  "month_abbrs = [''jan'', ''feb'', ''mar'', ''apr'', ''may'', ''jun'', ''jul'', ''aug'',
                  ''sep'', ''oct'', ''nov'', ''dec'']"

definition month_names :: "string list" where
  "month_names = [''january'', ''february'', ''march'', ''april'', ''may'', ''june'', ''july'',
                  ''august'', ''september'', ''october'', ''november'', ''december'']"

text \<open>
  \<^verbatim>\<open>datetime.strptime\<close> (CPython's \<^verbatim>\<open>_strptime\<close>, C locale) for the directives the program
  uses. The format becomes a regular expression, compiled with \<^verbatim>\<open>re.IGNORECASE\<close>:
  whitespace in the format is \<^verbatim>\<open>\s+\<close>; \<^verbatim>\<open>%d\<close> is \<^verbatim>\<open>3[0-1]|[1-2]\d|0[1-9]|[1-9]| [1-9]\<close>;
  \<^verbatim>\<open>%b\<close> and \<^verbatim>\<open>%B\<close> are the alternatives of the month names, longest first; \<^verbatim>\<open>%Y\<close> is
  \<^verbatim>\<open>\d\d\d\d\<close>. The expression is matched at the start of the string; the match must end at
  the end of the string; then the groups are converted and the date is built. Every
  failure is a \<^verbatim>\<open>ValueError\<close>, here \<open>None\<close>.
\<close>

record sp_groups =
  g_d :: "ustr option"
  g_b :: "ustr option"
  g_B :: "ustr option"
  g_Y :: "ustr option"

definition no_groups :: sp_groups where
  "no_groups = \<lparr> g_d = None, g_b = None, g_B = None, g_Y = None \<rparr>"

definition ci_prefix :: "string \<Rightarrow> ustr \<Rightarrow> bool" where
  "ci_prefix n s \<longleftrightarrow> length n \<le> length s \<and> list_all2 ci (u n) (take (length n) s)"

text \<open>The lengths of the alternatives of \<^verbatim>\<open>%d\<close> that match at the start of \<open>s\<close>, in order.\<close>

definition day_alts :: "ucd \<Rightarrow> ustr \<Rightarrow> nat list" where
  "day_alts U s =
     (case s of
        [] \<Rightarrow> []
      | c # s' \<Rightarrow>
          (case s' of
             [] \<Rightarrow> (if 49 \<le> c \<and> c \<le> 57 then [1] else [])
           | e # _ \<Rightarrow>
               (if c = 51 \<and> (e = 48 \<or> e = 49) then [2] else []) @
               (if (c = 49 \<or> c = 50) \<and> is_decimal U e then [2] else []) @
               (if c = 48 \<and> 49 \<le> e \<and> e \<le> 57 then [2] else []) @
               (if 49 \<le> c \<and> c \<le> 57 then [1] else []) @
               (if c = 32 \<and> 49 \<le> e \<and> e \<le> 57 then [2] else [])))"

definition months_longest_first :: "string list" where
  "months_longest_first = [''september'', ''february'', ''november'', ''december'', ''january'',
     ''october'', ''august'', ''march'', ''april'', ''june'', ''july'', ''may'']"

fun sp_match :: "ucd \<Rightarrow> fmt_item list \<Rightarrow> ustr \<Rightarrow> sp_groups \<Rightarrow> (sp_groups \<times> ustr) option" where
  "sp_match U [] s g = Some (g, s)"
| "sp_match U (Fws # fs) s g =
     first_some (\<lambda>k. sp_match U fs (drop k s) g)
       (rep_counts 1 None True (length (takeWhile isspace s)))"
| "sp_match U (Fchr c # fs) s g =
     (case s of [] \<Rightarrow> None | x # s' \<Rightarrow> if x = c then sp_match U fs s' g else None)"
| "sp_match U (Fd # fs) s g =
     first_some (\<lambda>k. sp_match U fs (drop k s) (g\<lparr>g_d := Some (take k s)\<rparr>)) (day_alts U s)"
| "sp_match U (Fb # fs) s g =
     first_some
       (\<lambda>n. if ci_prefix n s
              then sp_match U fs (drop (length n) s) (g\<lparr>g_b := Some (take (length n) s)\<rparr>)
              else None)
       month_abbrs"
| "sp_match U (FB # fs) s g =
     first_some
       (\<lambda>n. if ci_prefix n s
              then sp_match U fs (drop (length n) s) (g\<lparr>g_B := Some (take (length n) s)\<rparr>)
              else None)
       months_longest_first"
| "sp_match U (FY # fs) s g =
     (if 4 \<le> length s \<and> list_all (is_decimal U) (take 4 s)
      then sp_match U fs (drop 4 s) (g\<lparr>g_Y := Some (take 4 s)\<rparr>)
      else None)"

text \<open>\<^verbatim>\<open>int(s)\<close> for a string of decimal digits, surrounding whitespace allowed.\<close>

fun digits_val :: "ucd \<Rightarrow> nat \<Rightarrow> ustr \<Rightarrow> nat option" where
  "digits_val U acc [] = Some acc"
| "digits_val U acc (c # s) =
     (case decimal U c of None \<Rightarrow> None | Some v \<Rightarrow> digits_val U (10 * acc + v) s)"

definition py_int :: "ucd \<Rightarrow> ustr \<Rightarrow> nat option" where
  "py_int U s = (if str_strip s = [] then None else digits_val U 0 (str_strip s))"

text \<open>\<^verbatim>\<open>xs.index(x)\<close>; \<open>None\<close> is the \<^verbatim>\<open>ValueError\<close>.\<close>

fun list_index :: "'a list \<Rightarrow> 'a \<Rightarrow> nat option" where
  "list_index [] x = None"
| "list_index (y # ys) x = (if y = x then Some 0 else map_option Suc (list_index ys x))"

definition is_leap :: "nat \<Rightarrow> bool" where
  "is_leap y \<longleftrightarrow> y mod 4 = 0 \<and> (y mod 100 \<noteq> 0 \<or> y mod 400 = 0)"

definition days_in_month :: "nat \<Rightarrow> nat \<Rightarrow> nat" where
  "days_in_month y m =
     (if m = 2 then (if is_leap y then 29 else 28)
      else if m = 4 \<or> m = 6 \<or> m = 9 \<or> m = 11 then 30 else 31)"

text \<open>\<^verbatim>\<open>datetime.date(y, m, d)\<close>: the year is between 1 and 9999 and the day exists.\<close>

definition make_date :: "nat \<Rightarrow> nat \<Rightarrow> nat \<Rightarrow> date option" where
  "make_date y m d =
     (if 1 \<le> y \<and> y \<le> 9999 \<and> 1 \<le> m \<and> m \<le> 12 \<and> 1 \<le> d \<and> d \<le> days_in_month y m
      then Some \<lparr> year = y, month = m, day = d \<rparr> else None)"

definition sp_month :: "ucd \<Rightarrow> sp_groups \<Rightarrow> nat option" where
  "sp_month U g =
     (case g_B g of
        Some x \<Rightarrow> map_option Suc (list_index (map u month_names) (str_lower U x))
      | None \<Rightarrow>
          (case g_b g of
             Some x \<Rightarrow> map_option Suc (list_index (map u month_abbrs) (str_lower U x))
           | None \<Rightarrow> Some 1))"

definition strptime :: "ucd \<Rightarrow> fmt_item list \<Rightarrow> ustr \<Rightarrow> date option" where
  "strptime U fmt s =
     (case sp_match U fmt s no_groups of
        None \<Rightarrow> None
      | Some (g, rest) \<Rightarrow>
          if rest \<noteq> [] then None
          else
            (case (case g_Y g of Some x \<Rightarrow> py_int U x | None \<Rightarrow> Some 1900) of
               None \<Rightarrow> None
             | Some y \<Rightarrow>
                 (case sp_month U g of
                    None \<Rightarrow> None
                  | Some m \<Rightarrow>
                      (case (case g_d g of Some x \<Rightarrow> py_int U x | None \<Rightarrow> Some 1) of
                         None \<Rightarrow> None
                       | Some d \<Rightarrow> make_date y m d))))"

text \<open>The formats \<^verbatim>\<open>"%d %b %Y"\<close>, \<^verbatim>\<open>"%d %B %Y"\<close>, \<^verbatim>\<open>"%d %b, %Y"\<close>, \<^verbatim>\<open>"%d %B, %Y"\<close>, \<^verbatim>\<open>"%b %Y"\<close>, \<^verbatim>\<open>"%B %Y"\<close>.\<close>

definition date_formats :: "fmt_item list list" where
  "date_formats =
     [[Fd, Fws, Fb, Fws, FY], [Fd, Fws, FB, Fws, FY],
      [Fd, Fws, Fb, Fchr 44, Fws, FY], [Fd, Fws, FB, Fchr 44, Fws, FY],
      [Fb, Fws, FY], [FB, Fws, FY]]"

definition embedded_date_formats :: "fmt_item list list" where
  "embedded_date_formats = [[Fd, Fws, Fb, Fws, FY], [Fd, Fws, FB, Fws, FY]]"

text \<open>\<^verbatim>\<open>\b(\d{1,2}\s+[A-Za-z]{3,9}\s+\d{4})\b\<close>\<close>

definition embedded_date :: "ucd \<Rightarrow> atom list" where
  "embedded_date U =
     [WordB, Rep (is_decimal U) 1 (Some 2) True, Rep isspace 1 None True,
      Rep (\<lambda>c. ascii_upper_letter c \<or> ascii_lower_letter c) 3 (Some 9) True,
      Rep isspace 1 None True, Rep (is_decimal U) 4 (Some 4) True, WordB]"

text \<open>
  \<^verbatim>\<open>parse_event_date\<close>: strip, replace \<^verbatim>\<open>Sept\<close> by \<^verbatim>\<open>Sep\<close>, try the six formats in order,
  then search for an embedded date and try two formats on it. \<open>None\<close> is Python's
  \<^verbatim>\<open>None\<close>; each \<^verbatim>\<open>ValueError\<close> of \<^verbatim>\<open>strptime\<close> is caught.
\<close>

definition parse_event_date :: "ucd \<Rightarrow> ustr \<Rightarrow> date option" where
  "parse_event_date U date_str0 =
     (let date_str = str_replace (u ''Sept'') (u ''Sep'') (str_strip date_str0)
      in if date_str = [] then None
         else
           (case first_some (\<lambda>fmt. strptime U fmt date_str) date_formats of
              Some dt \<Rightarrow> Some dt
            | None \<Rightarrow>
                (case re_search U (embedded_date U) date_str of
                   None \<Rightarrow> None
                 | Some ps \<Rightarrow>
                     first_some (\<lambda>fmt. strptime U fmt (concat ps)) embedded_date_formats)))"

text \<open>\<^verbatim>\<open>str(n)\<close> for a natural number.\<close>

fun str_of_nat :: "nat \<Rightarrow> ustr" where
  "str_of_nat n = (if n < 10 then [48 + n] else str_of_nat (n div 10) @ [48 + n mod 10])"

declare str_of_nat.simps [simp del]

text \<open>
  \<^verbatim>\<open>event_dir_name\<close> and \<^verbatim>\<open>event_key\<close>, each translated from its own source text. The
  patterns are \<^verbatim>\<open>\b\d{4}\b\<close> and \<^verbatim>\<open>\b(20\d{2})\b\<close>.
\<close>

definition four_digit_token :: "ucd \<Rightarrow> atom list" where
  "four_digit_token U = [WordB, Rep (is_decimal U) 4 (Some 4) True, WordB]"

definition year_token :: "ucd \<Rightarrow> atom list" where
  "year_token U = [WordB] @ lit ''20'' @ [Rep (is_decimal U) 2 (Some 2) True, WordB]"

definition event_dir_name :: "ucd \<Rightarrow> ustr \<Rightarrow> ustr \<Rightarrow> ustr" where
  "event_dir_name U event_name date_str =
     (let normalized_name =
            str_strip (re_sub U (four_digit_token U) [] (normalize_event_name U event_name));
          base = (if slugify U normalized_name \<noteq> [] then slugify U normalized_name
                  else if slugify U (normalize_event_name U event_name) \<noteq> []
                  then slugify U (normalize_event_name U event_name)
                  else u ''event'')
      in case re_search U (year_token U) event_name of
           Some ps \<Rightarrow> base @ u ''_'' @ concat ps
         | None \<Rightarrow>
             (case parse_event_date U date_str of
                Some dt \<Rightarrow> base @ u ''_'' @ str_of_nat (year dt)
              | None \<Rightarrow> base))"

definition event_key :: "ucd \<Rightarrow> ustr \<Rightarrow> ustr \<Rightarrow> ustr" where
  "event_key U event_name date_str =
     (let normalized_name =
            str_strip (re_sub U (four_digit_token U) [] (normalize_event_name U event_name));
          base = (if slugify U normalized_name \<noteq> [] then slugify U normalized_name
                  else if slugify U (normalize_event_name U event_name) \<noteq> []
                  then slugify U (normalize_event_name U event_name)
                  else u ''event'')
      in case re_search U (year_token U) event_name of
           Some ps \<Rightarrow> base @ u ''_'' @ concat ps
         | None \<Rightarrow>
             (case parse_event_date U date_str of
                Some dt \<Rightarrow> base @ u ''_'' @ str_of_nat (year dt)
              | None \<Rightarrow> base))"

text \<open>Unfolding rules for evaluating dates and event names on concrete strings.\<close>

lemmas date_eval = parse_event_date_def strptime_def sp_match.simps day_alts_def ci_prefix_def
  month_abbrs_def month_names_def months_longest_first_def py_int_def sp_month_def
  make_date_def days_in_month_def is_leap_def date_formats_def embedded_date_formats_def
  embedded_date_def no_groups_def


lemmas event_eval = event_key_def event_dir_name_def normalize_event_name_def
  four_digit_token_def year_token_def slugify_squeeze str_of_nat.simps

text \<open>
  C6. The dedup key and the directory name of an event are the same function of the
  event name and the date string.
\<close>

theorem event_key_eq_event_dir_name:
  "event_key U event_name date_str = event_dir_name U event_name date_str"
  by (simp add: event_key_def event_dir_name_def)

theorem event_key_eq_event_dir_name_witness:
  "event_key ucd_sample (u ''EUIC'') [] = event_dir_name ucd_sample (u ''EUIC'') []
   \<and> event_dir_name ucd_sample (u ''EUIC'') [] = u ''euic''"
proof -
  have "event_dir_name ucd_sample (u ''EUIC'') [] = u ''euic''"
    by (simp add: event_eval date_eval rx_eval str_eval char_eval)
  then show ?thesis
    using event_key_eq_event_dir_name [of ucd_sample "u ''EUIC''" "[]"] by simp
qed

text \<open>
  C2. \<^verbatim>\<open>parse_event_date\<close> on a day, a full month name and a year. The replacement of
  \<^verbatim>\<open>Sept\<close> by \<^verbatim>\<open>Sep\<close> turns \<^verbatim>\<open>September\<close> into \<^verbatim>\<open>Sepember\<close>, which no format accepts: the
  function returns \<open>None\<close> for \<^verbatim>\<open>15 September 2024\<close>, while \<^verbatim>\<open>15 October 2024\<close> and
  \<^verbatim>\<open>15 Sept 2024\<close> give their dates.
\<close>

theorem parse_event_date_full_september:
  "parse_event_date U (u ''15 September 2024'') = None
   \<and> parse_event_date U (u ''15 October 2024'') = Some \<lparr> year = 2024, month = 10, day = 15 \<rparr>
   \<and> parse_event_date U (u ''15 Sept 2024'') = Some \<lparr> year = 2024, month = 9, day = 15 \<rparr>"
proof -
  have "parse_event_date U (u ''15 September 2024'') = None"
    by (simp add: date_eval rx_eval str_eval char_eval)
  moreover have "parse_event_date U (u ''15 October 2024'')
                   = Some \<lparr> year = 2024, month = 10, day = 15 \<rparr>"
    by (simp add: date_eval rx_eval str_eval char_eval)
  moreover have "parse_event_date U (u ''15 Sept 2024'')
                   = Some \<lparr> year = 2024, month = 9, day = 15 \<rparr>"
    by (simp add: date_eval rx_eval str_eval char_eval)
  ultimately show ?thesis by blast
qed


section \<open>Team text\<close>

text \<open>
  \<^verbatim>\<open>str.splitlines()\<close>: the line boundaries are LF, CR, CR LF, VT, FF, FS, GS, RS, NEL,
  U+2028 and U+2029; a boundary at the end of the string opens no further line.
\<close>

definition is_linebreak :: "cp \<Rightarrow> bool" where
  "is_linebreak c \<longleftrightarrow>
     (10 \<le> c \<and> c \<le> 13) \<or> (28 \<le> c \<and> c \<le> 30) \<or> c = 133 \<or> c = 8232 \<or> c = 8233"

fun split_lines :: "ustr \<Rightarrow> ustr \<Rightarrow> ustr list" where
  "split_lines cur [] = (if cur = [] then [] else [cur])"
| "split_lines cur [c] = (if is_linebreak c then [cur] else [cur @ [c]])"
| "split_lines cur (c # d # s) =
     (if c = 13 \<and> d = 10 then cur # split_lines [] s
      else if is_linebreak c then cur # split_lines [] (d # s)
      else split_lines (cur @ [c]) (d # s))"

definition splitlines :: "ustr \<Rightarrow> ustr list" where
  "splitlines s = split_lines [] s"

text \<open>\<^verbatim>\<open>sep.join(xs)\<close>\<close>

fun str_join :: "ustr \<Rightarrow> ustr list \<Rightarrow> ustr" where
  "str_join sep [] = []"
| "str_join sep [x] = x"
| "str_join sep (x # y # xs) = x @ sep @ str_join sep (y # xs)"

text \<open>The loop that collects the blocks of non-empty lines: \<open>block\<close> is the open block.\<close>

fun collect_blocks :: "ustr list \<Rightarrow> ustr list \<Rightarrow> ustr list list" where
  "collect_blocks block [] = (if block \<noteq> [] then [block] else [])"
| "collect_blocks block (line # lines) =
     (if line = []
      then (if block \<noteq> [] then block # collect_blocks [] lines else collect_blocks [] lines)
      else collect_blocks (block @ [line]) lines)"

text \<open>\<^verbatim>\<open>\bCalyrex-Ice\b\<close> and \<^verbatim>\<open>^(\s*Ability:\s*)(.*?)\s*$\<close>, both with \<^verbatim>\<open>re.IGNORECASE\<close>.\<close>

definition calyrex_ice :: "atom list" where
  "calyrex_ice = [WordB] @ lit_i ''Calyrex-Ice'' @ [WordB]"

definition ability_value_line :: "atom list" where
  "ability_value_line =
     [Bol False, Rep isspace 0 None True] @ lit_i ''Ability:'' @
     [Rep isspace 0 None True, Rep (\<lambda>c. c \<noteq> 10) 0 None False, Rep isspace 0 None True,
      Eol False]"

text \<open>
  The body of the loop over the lines of a block. The pieces of a match are those of
  \<^verbatim>\<open>^\<close>, \<^verbatim>\<open>\s*\<close>, the eight characters of \<^verbatim>\<open>Ability:\<close> and \<^verbatim>\<open>\s*\<close> (group 1), then
  \<^verbatim>\<open>.*?\<close> (group 2), \<^verbatim>\<open>\s*\<close> and \<^verbatim>\<open>$\<close>.
\<close>

definition rewrite_line :: "ucd \<Rightarrow> ustr \<Rightarrow> ustr \<Rightarrow> ustr" where
  "rewrite_line U asone line =
     (case re_match U ability_value_line line of
        None \<Rightarrow> line
      | Some ps \<Rightarrow>
          (let ability_value = concat (take 1 (drop 11 ps));
               ability_norm = re_sub U [Ch (\<lambda>c. \<not> az09 c)] [] (str_lower U ability_value)
           in if ability_norm = u ''asone'' then concat (take 11 ps) @ asone else line))"

definition normalize_block :: "ucd \<Rightarrow> ustr list \<Rightarrow> ustr" where
  "normalize_block U block =
     (let header = hd block;
          asone = (if re_search U calyrex_ice header \<noteq> None then u ''As One (Glastrier)''
                   else u ''As One (Spectrier)'')
      in str_join [10] (map (rewrite_line U asone) block))"

definition normalize_team_text :: "ucd \<Rightarrow> ustr \<Rightarrow> ustr" where
  "normalize_team_text U team_text =
     (let lines0 = map str_rstrip (splitlines team_text);
          lines1 = dropWhile (\<lambda>l. l = []) lines0;
          lines2 = rev (dropWhile (\<lambda>l. l = []) (rev lines1));
          blocks = collect_blocks [] lines2
      in str_join [10, 10] (map (normalize_block U) blocks) @ [10])"

text \<open>Unfolding rules for evaluating the normalizer on concrete strings.\<close>

lemmas team_eval = normalize_team_text_def normalize_block_def rewrite_line_def
  ability_value_line_def calyrex_ice_def splitlines_def is_linebreak_def


section \<open>Properties of the team text\<close>

subsection \<open>The pattern of an ability line\<close>

text \<open>
  A greedy \<^verbatim>\<open>\s*\<close> takes all the whitespace there is when the rest of the pattern matches
  after it, and a case-insensitive literal matches a prefix of its own length.
\<close>

lemma first_some_all_None: "(\<And>k. k \<in> set ks \<Longrightarrow> f k = None) \<Longrightarrow> first_some f ks = None"
  by (induction ks) auto

lemma rep_counts_star_greedy: "rep_counts 0 None True n = n # rev [0 ..< n]"
  by (simp add: rep_counts_def)

lemma greedy_star_commit:
  assumes "rx_match U as (prev_after prev (takeWhile P s)) (dropWhile P s) = Some qs"
  shows "rx_match U (Rep P 0 None True # as) prev s = Some (takeWhile P s # qs)"
proof -
  have t: "take (length (takeWhile P s)) s = takeWhile P s"
    by (rule takeWhile_eq_take[symmetric])
  have d: "drop (length (takeWhile P s)) s = dropWhile P s"
    by (rule dropWhile_eq_drop[symmetric])
  show ?thesis
    unfolding rx_match.simps rep_counts_star_greedy first_some.simps t d assms by simp
qed

lemma greedy_star_fail:
  assumes "\<And>k. k \<le> length (takeWhile P s) \<Longrightarrow>
             rx_match U as (prev_after prev (take k s)) (drop k s) = None"
  shows "rx_match U (Rep P 0 None True # as) prev s = None"
  unfolding rx_match.simps
  by (rule first_some_all_None) (simp add: set_rep_counts assms)

lemma takeWhile_holds: "k < length (takeWhile P s) \<Longrightarrow> P (s ! k)"
  by (metis nth_mem set_takeWhileD takeWhile_nth)

lemma greedy_star_then_char:
  assumes "\<And>c. P c \<Longrightarrow> \<not> Q c"
  shows "rx_match U (Rep P 0 None True # Ch Q # as) prev s =
           map_option ((#) (takeWhile P s))
             (rx_match U (Ch Q # as) (prev_after prev (takeWhile P s)) (dropWhile P s))"
proof (cases "rx_match U (Ch Q # as) (prev_after prev (takeWhile P s)) (dropWhile P s)")
  case (Some qs)
  then show ?thesis by (simp add: greedy_star_commit)
next
  case None
  have "rx_match U (Ch Q # as) (prev_after prev (take k s)) (drop k s) = None"
    if k: "k \<le> length (takeWhile P s)" for k
  proof (cases "k = length (takeWhile P s)")
    case True
    then show ?thesis
      using None takeWhile_eq_take[of P s] dropWhile_eq_drop[of P s] by simp
  next
    case False
    then have lt: "k < length (takeWhile P s)" using k by simp
    then have "k < length s"
      using length_takeWhile_le[of P s] by simp
    then have "drop k s = s ! k # drop (Suc k) s" by (simp add: Cons_nth_drop_Suc)
    moreover have "\<not> Q (s ! k)" using takeWhile_holds[OF lt] assms by simp
    ultimately show ?thesis by (simp add: rx_match.simps)
  qed
  then show ?thesis using None by (simp add: greedy_star_fail)
qed

lemma map_option_append_Nil: "map_option ((@) []) x = x"
  by (cases x) auto

lemma rx_match_lit_i:
  "rx_match U (lit_i l @ as) prev s =
     (if ci_prefix l s
      then map_option ((@) (map (\<lambda>c. [c]) (take (length l) s)))
             (rx_match U as (prev_after prev (take (length l) s)) (drop (length l) s))
      else None)"
proof (induction l arbitrary: prev s)
  case Nil
  then show ?case
    by (simp add: lit_i_def ci_prefix_def u_def prev_after_def map_option_append_Nil)
next
  case (Cons a l)
  have IH: "rx_match U (map (\<lambda>c. Ch (ci (of_char c))) l @ as) q t =
     (if ci_prefix l t
      then map_option ((@) (map (\<lambda>c. [c]) (take (length l) t)))
             (rx_match U as (prev_after q (take (length l) t)) (drop (length l) t))
      else None)" for q t
    using Cons.IH[of q t] by (simp add: lit_i_def)
  show ?case
  proof (cases s)
    case Nil
    then show ?thesis by (simp add: lit_i_def ci_prefix_def rx_match.simps)
  next
    case (Cons c t)
    have p: "ci_prefix (a # l) (c # t) \<longleftrightarrow> ci (of_char a) c \<and> ci_prefix l t"
      by (auto simp: ci_prefix_def u_def)
    have pa: "prev_after prev (c # take (length l) t) = prev_after (Some c) (take (length l) t)"
      by (simp add: prev_after_def)
    show ?thesis
      unfolding Cons
      by (simp add: lit_i_def rx_match.simps IH p pa option.map_comp comp_def)
  qed
qed


lemma first_some_append:
  "first_some f (xs @ ys) = (case first_some f xs of Some y \<Rightarrow> Some y | None \<Rightarrow> first_some f ys)"
  by (induction xs) (auto split: option.splits)

lemma first_some_upt_last:
  assumes "\<And>k. k < n \<Longrightarrow> f k = None"
  shows "first_some f [0 ..< Suc n] = f n"
proof -
  have "first_some f [0 ..< n] = None"
    by (rule first_some_all_None) (simp add: assms)
  then show ?thesis by (simp add: first_some_append split: option.splits)
qed

lemma ws_then_eol:
  assumes "10 \<notin> set r"
  shows "rx_match U [Rep isspace 0 None True, Eol False] q r =
           (if list_all isspace r then Some [r, []] else None)"
proof (cases "list_all isspace r")
  case True
  then have tw: "takeWhile isspace r = r" and dw: "dropWhile isspace r = []"
    by (simp_all add: list_all_iff)
  have "rx_match U [Eol False] (prev_after q (takeWhile isspace r)) (dropWhile isspace r)
          = Some [[]]"
    unfolding dw by (simp add: rx_match.simps at_eol_def)
  then have "rx_match U [Rep isspace 0 None True, Eol False] q r
               = Some (takeWhile isspace r # [[]])"
    by (rule greedy_star_commit)
  then show ?thesis unfolding tw using True by simp
next
  case False
  have "rx_match U [Eol False] (prev_after q (take k r)) (drop k r) = None"
    if "k \<le> length (takeWhile isspace r)" for k
  proof -
    have ne: "takeWhile isspace r \<noteq> r"
      using False by (auto simp: takeWhile_eq_all_conv list_all_iff)
    have "length (takeWhile isspace r) \<noteq> length r"
    proof
      assume e: "length (takeWhile isspace r) = length r"
      have "takeWhile isspace r = take (length (takeWhile isspace r)) r"
        by (rule takeWhile_eq_take)
      then show False using ne unfolding e by simp
    qed
    then have "length (takeWhile isspace r) < length r"
      using length_takeWhile_le[of isspace r] by simp
    then have "drop k r \<noteq> []" using that by simp
    moreover have "drop k r \<noteq> [10]"
    proof
      assume "drop k r = [10]"
      then have "10 \<in> set (drop k r)" by simp
      then have "10 \<in> set r" by (rule in_set_dropD)
      then show False using assms by simp
    qed
    ultimately show ?thesis by (simp add: rx_match.simps at_eol_def)
  qed
  then show ?thesis using False by (simp add: greedy_star_fail)
qed

lemma value_tail:
  assumes "10 \<notin> set s" and "s = [] \<or> \<not> isspace (last s)"
  shows "rx_match U [Rep (\<lambda>c. c \<noteq> 10) 0 None False, Rep isspace 0 None True, Eol False] prev s
           = Some [s, [], []]"
proof -
  have tw: "takeWhile (\<lambda>c. c \<noteq> 10) s = s"
    using assms(1) by (auto simp: takeWhile_eq_all_conv)
  define f where "f = (\<lambda>k. map_option ((#) (take k s))
      (rx_match U [Rep isspace 0 None True, Eol False] (prev_after prev (take k s)) (drop k s)))"
  have inner: "rx_match U [Rep isspace 0 None True, Eol False] q (drop k s) =
           (if list_all isspace (drop k s) then Some [drop k s, []] else None)" for q k
    by (rule ws_then_eol) (use assms(1) in \<open>auto dest: in_set_dropD\<close>)
  have none: "f k = None" if "k < length s" for k
  proof -
    have "drop k s \<noteq> []" using that by simp
    moreover have "last (drop k s) = last s" using that by simp
    moreover have "\<not> isspace (last s)" using assms(2) that by auto
    ultimately have "\<not> list_all isspace (drop k s)"
      using last_in_set[of "drop k s"] by (auto simp: list_all_iff)
    then show ?thesis by (simp add: f_def inner)
  qed
  have last: "f (length s) = Some [s, [], []]"
    by (simp add: f_def inner)
  have "rx_match U [Rep (\<lambda>c. c \<noteq> 10) 0 None False, Rep isspace 0 None True, Eol False] prev s
          = first_some f [0 ..< Suc (length s)]"
    by (subst rx_match.simps(3)) (simp add: tw rep_counts_def f_def Let_def)
  also have "\<dots> = f (length s)" by (rule first_some_upt_last) (rule none)
  finally show ?thesis using last by simp
qed

text \<open>
  A line as the normalizer leaves it has no line boundary in it and no whitespace at its
  end. The ability is replaced by one of two texts.
\<close>

definition trimmed :: "ustr \<Rightarrow> bool" where
  "trimmed l \<longleftrightarrow> list_all (\<lambda>c. \<not> is_linebreak c) l \<and> (l = [] \<or> \<not> isspace (last l))"

definition is_asone :: "ustr \<Rightarrow> bool" where
  "is_asone a \<longleftrightarrow> a = u ''As One (Glastrier)'' \<or> a = u ''As One (Spectrier)''"

lemma trimmed_no_newline: "trimmed l \<Longrightarrow> 10 \<notin> set l"
proof
  assume "trimmed l" and "10 \<in> set l"
  then have "\<not> is_linebreak 10" by (auto simp: trimmed_def list_all_iff)
  then show False by (simp add: is_linebreak_def)
qed

lemma trimmed_suffix: "trimmed (p @ r) \<Longrightarrow> trimmed r"
  by (auto simp: trimmed_def)

lemma trimmed_dropWhile: "trimmed l \<Longrightarrow> trimmed (dropWhile P l)"
  using trimmed_suffix[of "takeWhile P l" "dropWhile P l"] by simp

lemma trimmed_drop: "trimmed l \<Longrightarrow> trimmed (drop n l)"
  using trimmed_suffix[of "take n l" "drop n l"] by simp

lemma lit_i_Cons: "lit_i (a # l) = Ch (ci (of_char a)) # lit_i l"
  by (simp add: lit_i_def)

lemma space_not_A: "isspace c \<Longrightarrow> \<not> ci 65 c"
proof
  assume s: "isspace c" and "ci 65 c"
  then have "ascii_lower c = 97"
    by (simp add: ci_def ascii_lower_def ascii_upper_letter_def)
  then have "c = 65 \<or> c = 97"
    by (simp add: ascii_lower_def ascii_upper_letter_def split: if_splits)
  with s show False by (auto simp: isspace_def)
qed

lemma concat_singles: "concat (map (\<lambda>c. [c]) xs) = xs"
  by (induction xs) auto

text \<open>The match of \<^verbatim>\<open>^(\s*Ability:\s*)(.*?)\s*$\<close> on a line without trailing whitespace.\<close>

lemma ability_match:
  assumes "trimmed line"
  shows "re_match U ability_value_line line =
     (if ci_prefix ''Ability:'' (dropWhile isspace line)
      then Some ([] # takeWhile isspace line #
             map (\<lambda>c. [c]) (take 8 (dropWhile isspace line)) @
             [takeWhile isspace (drop 8 (dropWhile isspace line)),
              dropWhile isspace (drop 8 (dropWhile isspace line)), [], []])
      else None)"
proof -
  define r1 where "r1 = dropWhile isspace line"
  define r2 where "r2 = drop 8 r1"
  define r3 where "r3 = dropWhile isspace r2"
  define tl4 where "tl4 = [Rep isspace 0 None True, Rep (\<lambda>c. c \<noteq> 10) 0 None False,
                             Rep isspace 0 None True, Eol False]"
  have t3: "trimmed r3"
    unfolding r3_def r2_def r1_def
    by (intro trimmed_dropWhile trimmed_drop assms)
  then have "rx_match U [Rep (\<lambda>c. c \<noteq> 10) 0 None False, Rep isspace 0 None True, Eol False]
               q r3 = Some [r3, [], []]" for q
    by (intro value_tail trimmed_no_newline) (auto simp: trimmed_def)
  then have 4: "rx_match U tl4 q r2 = Some [takeWhile isspace r2, r3, [], []]" for q
    unfolding tl4_def r3_def by (intro greedy_star_commit) simp
  have 3: "rx_match U (lit_i ''Ability:'' @ tl4) q r1 =
             (if ci_prefix ''Ability:'' r1
              then Some (map (\<lambda>c. [c]) (take 8 r1) @ [takeWhile isspace r2, r3, [], []])
              else None)" for q
  proof -
    have len8: "length ''Ability:'' = 8" by simp
    show ?thesis
      unfolding rx_match_lit_i len8 r2_def[symmetric] 4 by simp
  qed
  have 2: "rx_match U (Rep isspace 0 None True # lit_i ''Ability:'' @ tl4) q line =
             map_option ((#) (takeWhile isspace line))
               (rx_match U (lit_i ''Ability:'' @ tl4) (prev_after q (takeWhile isspace line)) r1)"
    for q
    unfolding r1_def lit_i_Cons append_Cons
    by (rule greedy_star_then_char) (simp add: space_not_A)
  have "re_match U ability_value_line line =
          map_option ((#) []) (rx_match U (Rep isspace 0 None True # lit_i ''Ability:'' @ tl4) None line)"
    by (simp add: re_match_def ability_value_line_def tl4_def rx_match.simps(5) at_bol_def)
  then show ?thesis
    unfolding 2 3 by (simp add: r1_def r2_def r3_def)
qed

lemma sub_single_class: "sub_from U [Ch P] [] prev s = filter (\<lambda>c. \<not> P c) s"
proof (induction s arbitrary: prev)
  case Nil
  then show ?case by (subst sub_from.simps) (simp add: rx_match.simps)
next
  case (Cons c s)
  then show ?case by (subst sub_from.simps) (simp add: rx_match.simps)
qed

lemma rewrite_line_eq:
  assumes "trimmed line"
  shows "rewrite_line U a line =
     (if ci_prefix ''Ability:'' (dropWhile isspace line)
         \<and> filter az09 (str_lower U (dropWhile isspace (drop 8 (dropWhile isspace line))))
             = u ''asone''
      then takeWhile isspace line @ take 8 (dropWhile isspace line)
             @ takeWhile isspace (drop 8 (dropWhile isspace line)) @ a
      else line)"
proof (cases "ci_prefix ''Ability:'' (dropWhile isspace line)")
  case False
  then show ?thesis by (simp add: rewrite_line_def ability_match[OF assms])
next
  case True
  then have len: "length (take 8 (dropWhile isspace line)) = 8"
    by (simp add: ci_prefix_def)
  show ?thesis
    using True len
    by (simp add: rewrite_line_def ability_match[OF assms] re_sub_def sub_single_class
        concat_singles Let_def)
qed


subsection \<open>Lines and blocks\<close>

text \<open>
  \<open>flat\<close> lays blocks out as lines, with one empty line between two blocks. A good line
  is a non-empty line as the normalizer leaves it, a good block a non-empty list of good
  lines.
\<close>

fun flat :: "ustr list list \<Rightarrow> ustr list" where
  "flat [] = []"
| "flat [b] = b"
| "flat (b # c # bs) = b @ [] # flat (c # bs)"

definition good_line :: "ustr \<Rightarrow> bool" where
  "good_line l \<longleftrightarrow> l \<noteq> [] \<and> trimmed l"

definition good_block :: "ustr list \<Rightarrow> bool" where
  "good_block b \<longleftrightarrow> b \<noteq> [] \<and> list_all good_line b"

lemma str_join_append:
  "xs \<noteq> [] \<Longrightarrow> ys \<noteq> [] \<Longrightarrow> str_join sep (xs @ ys) = str_join sep xs @ sep @ str_join sep ys"
proof (induction sep xs rule: str_join.induct)
  case (1 sep)
  then show ?case by simp
next
  case (2 sep x)
  then show ?case by (cases ys) auto
next
  case (3 sep x y xs)
  then show ?case by simp
qed

lemma str_join_flat:
  "list_all (\<lambda>b. b \<noteq> []) bs \<Longrightarrow>
   str_join [10, 10] (map (str_join [10]) bs) = str_join [10] (flat bs)"
proof (induction bs rule: flat.induct)
  case 1
  then show ?case by simp
next
  case (2 b)
  then show ?case by simp
next
  case (3 b c bs)
  have "str_join [10] (b @ [] # flat (c # bs))
          = str_join [10] b @ [10] @ str_join [10] ([] # flat (c # bs))"
    using 3(2) by (intro str_join_append) auto
  moreover have "flat (c # bs) \<noteq> []" using 3(2) by (cases bs) auto
  then have "str_join [10] ([] # flat (c # bs)) = [10] @ str_join [10] (flat (c # bs))"
    by (cases "flat (c # bs)") auto
  ultimately show ?case using 3 by simp
qed

lemma split_lines_line:
  "list_all (\<lambda>c. \<not> is_linebreak c) l \<Longrightarrow>
   split_lines cur (l @ 10 # s) = (cur @ l) # split_lines [] s"
proof (induction l arbitrary: cur)
  case Nil
  then show ?case by (cases s) (auto simp: is_linebreak_def)
next
  case (Cons c l)
  obtain d r where dr: "l @ 10 # s = d # r" by (cases "l @ 10 # s") auto
  have c: "\<not> is_linebreak c" "c \<noteq> 13" using Cons.prems by (auto simp: is_linebreak_def)
  have "split_lines cur ((c # l) @ 10 # s) = split_lines (cur @ [c]) (l @ 10 # s)"
    using c by (simp add: dr)
  then show ?case using Cons by simp
qed

lemma splitlines_join:
  "ls \<noteq> [] \<Longrightarrow> list_all (\<lambda>l. list_all (\<lambda>c. \<not> is_linebreak c) l) ls \<Longrightarrow>
   splitlines (str_join [10] ls @ [10]) = ls"
proof (induction "[10::nat]" ls rule: str_join.induct)
  case 1
  then show ?case by simp
next
  case (2 x)
  then show ?case using split_lines_line[of x "[]" "[]"] by (simp add: splitlines_def)
next
  case (3 x y xs)
  then show ?case
    using split_lines_line[of x "[]" "str_join [10] (y # xs) @ [10]"]
    by (simp add: splitlines_def)
qed

lemma rstrip_trimmed: "trimmed l \<Longrightarrow> str_rstrip l = l"
proof (cases "l = []")
  case True
  then show ?thesis by (simp add: str_rstrip_def rstrip_by_def)
next
  case False
  assume "trimmed l"
  then have "\<not> isspace (last l)" using False by (simp add: trimmed_def)
  then have "\<not> isspace (hd (rev l))" using False by (simp add: hd_rev)
  moreover have "rev l \<noteq> []" using False by simp
  ultimately have "dropWhile isspace (rev l) = rev l" by (cases "rev l") auto
  then show ?thesis by (simp add: str_rstrip_def rstrip_by_def)
qed

lemma trimmed_rstrip:
  "list_all (\<lambda>c. \<not> is_linebreak c) l \<Longrightarrow> trimmed (str_rstrip l)"
proof -
  assume a: "list_all (\<lambda>c. \<not> is_linebreak c) l"
  let ?d = "dropWhile isspace (rev l)"
  have "set ?d \<subseteq> set l" using set_dropWhileD[of _ isspace "rev l"] by auto
  then have 1: "list_all (\<lambda>c. \<not> is_linebreak c) (rev ?d)"
    using a by (auto simp: list_all_iff)
  have 2: "rev ?d = [] \<or> \<not> isspace (last (rev ?d))"
  proof (cases "?d = []")
    case True
    then show ?thesis by simp
  next
    case False
    then have "\<not> isspace (hd ?d)" by (rule hd_dropWhile)
    then show ?thesis using False by (simp add: last_rev)
  qed
  show ?thesis using 1 2 by (simp add: trimmed_def str_rstrip_def rstrip_by_def)
qed

lemma split_lines_no_break:
  "list_all (\<lambda>c. \<not> is_linebreak c) cur \<Longrightarrow>
   list_all (\<lambda>l. list_all (\<lambda>c. \<not> is_linebreak c) l) (split_lines cur s)"
  by (induction cur s rule: split_lines.induct) auto

lemma collect_blocks_run:
  "list_all (\<lambda>l. l \<noteq> []) b \<Longrightarrow> collect_blocks acc (b @ rest) = collect_blocks (acc @ b) rest"
  by (induction b arbitrary: acc) auto

lemma collect_blocks_flat:
  "list_all (\<lambda>b. b \<noteq> [] \<and> list_all (\<lambda>l. l \<noteq> []) b) bs \<Longrightarrow> collect_blocks [] (flat bs) = bs"
proof (induction bs rule: flat.induct)
  case 1
  then show ?case by simp
next
  case (2 b)
  then show ?case using collect_blocks_run[of b "[]" "[]"] by simp
next
  case (3 b c bs)
  then show ?case using collect_blocks_run[of b "[]" "[] # flat (c # bs)"] by simp
qed

lemma collect_blocks_good:
  "list_all P acc \<Longrightarrow> list_all (\<lambda>l. l \<noteq> []) acc \<Longrightarrow> list_all P ls \<Longrightarrow>
   list_all (\<lambda>b. b \<noteq> [] \<and> list_all (\<lambda>l. l \<noteq> [] \<and> P l) b) (collect_blocks acc ls)"
proof (induction ls arbitrary: acc)
  case Nil
  then show ?case by (auto simp: list_all_iff)
next
  case (Cons l ls)
  show ?case
  proof (cases "l = []")
    case True
    have "list_all (\<lambda>b. b \<noteq> [] \<and> list_all (\<lambda>l. l \<noteq> [] \<and> P l) b) (collect_blocks [] ls)"
      using Cons.prems by (intro Cons.IH) auto
    then show ?thesis using True Cons.prems by (auto simp: list_all_iff)
  next
    case False
    have "list_all (\<lambda>b. b \<noteq> [] \<and> list_all (\<lambda>l. l \<noteq> [] \<and> P l) b) (collect_blocks (acc @ [l]) ls)"
      using Cons.prems False by (intro Cons.IH) auto
    then show ?thesis using False by simp
  qed
qed

lemma flat_ends:
  "bs \<noteq> [] \<Longrightarrow> list_all (\<lambda>b. b \<noteq> [] \<and> list_all (\<lambda>l. l \<noteq> []) b) bs \<Longrightarrow>
   flat bs \<noteq> [] \<and> hd (flat bs) \<noteq> [] \<and> last (flat bs) \<noteq> []"
proof (induction bs rule: flat.induct)
  case 1
  then show ?case by simp
next
  case (2 b)
  then show ?case by (cases b) (auto simp: list_all_iff)
next
  case (3 b c bs)
  then show ?case by (cases b) (auto simp: list_all_iff)
qed

lemma flat_all:
  "list_all (list_all P) bs \<Longrightarrow> P [] \<Longrightarrow> list_all P (flat bs)"
  by (induction bs rule: flat.induct) auto

lemma dropWhile_id: "xs = [] \<or> \<not> P (hd xs) \<Longrightarrow> dropWhile P xs = xs"
  by (cases xs) auto

lemma rev_dropWhile_id: "xs = [] \<or> \<not> P (last xs) \<Longrightarrow> rev (dropWhile P (rev xs)) = xs"
proof (cases "xs = []")
  case True
  then show ?thesis by simp
next
  case False
  assume "xs = [] \<or> \<not> P (last xs)"
  then have "\<not> P (hd (rev xs))" using False by (simp add: hd_rev)
  then have "dropWhile P (rev xs) = rev xs" using False by (intro dropWhile_id) simp
  then show ?thesis by simp
qed


subsection \<open>The rewrite of an ability line\<close>

lemma asone_shape:
  assumes "is_asone a"
  shows "a \<noteq> []" and "hd a = 65" and "last a = 41"
    and "list_all (\<lambda>c. \<not> is_linebreak c) a"
  using assms by (auto simp: is_asone_def u_def is_linebreak_def)

lemma asone_norm:
  assumes "is_asone a"
  shows "filter az09 (str_lower U a) \<noteq> u ''asone''"
  using assms by (auto simp: is_asone_def str_lower_def char_eval)

lemma span_class:
  assumes "\<forall>x\<in>set w. P x" and "r \<noteq> []" and "\<not> P (hd r)"
  shows "takeWhile P (w @ r) = w" and "dropWhile P (w @ r) = r"
  using assms by (cases r; simp)+

lemma rewritten_good:
  assumes "trimmed l" and "is_asone a"
  shows "good_line (takeWhile isspace l @ take 8 (dropWhile isspace l)
           @ takeWhile isspace (drop 8 (dropWhile isspace l)) @ a)"
proof -
  have nb: "\<forall>c\<in>set l. \<not> is_linebreak c" using assms(1) by (simp add: trimmed_def list_all_iff)
  have s1: "set (takeWhile isspace l) \<subseteq> set l" by (auto dest: set_takeWhileD)
  have s2: "set (take 8 (dropWhile isspace l)) \<subseteq> set l"
    by (auto dest: in_set_takeD set_dropWhileD)
  have s3: "set (takeWhile isspace (drop 8 (dropWhile isspace l))) \<subseteq> set l"
    by (auto dest!: set_takeWhileD in_set_dropD set_dropWhileD)
  have a: "a \<noteq> []" "last a = 41" "\<forall>c\<in>set a. \<not> is_linebreak c"
    using asone_shape[OF assms(2)] by (simp_all add: list_all_iff)
  have sp: "\<not> isspace 41" by (simp add: isspace_def)
  show ?thesis
    unfolding good_line_def trimmed_def list_all_iff
    using nb s1 s2 s3 a sp by auto
qed

lemma rewrite_line_good:
  assumes "good_line l" and "is_asone a"
  shows "good_line (rewrite_line U a l)"
proof -
  have t: "trimmed l" using assms(1) by (simp add: good_line_def)
  show ?thesis
    using rewritten_good[OF t assms(2)] assms(1) by (simp add: rewrite_line_eq[OF t])
qed

lemma rewrite_line_idem:
  assumes t: "trimmed l" and a: "is_asone a" and a': "is_asone a'"
  shows "rewrite_line U a' (rewrite_line U a l) = rewrite_line U a l"
proof -
  define w1 where "w1 = takeWhile isspace l"
  define r1 where "r1 = dropWhile isspace l"
  define w2 where "w2 = takeWhile isspace (drop 8 r1)"
  define v where "v = dropWhile isspace (drop 8 r1)"
  have eq: "rewrite_line U b l =
      (if ci_prefix ''Ability:'' r1 \<and> filter az09 (str_lower U v) = u ''asone''
       then w1 @ take 8 r1 @ w2 @ b else l)" for b
    unfolding w1_def r1_def w2_def v_def by (rule rewrite_line_eq[OF t])
  show ?thesis
  proof (cases "ci_prefix ''Ability:'' r1 \<and> filter az09 (str_lower U v) = u ''asone''")
    case False
    then have "rewrite_line U b l = l" for b unfolding eq by auto
    then show ?thesis by simp
  next
    case True
    let ?l = "w1 @ take 8 r1 @ w2 @ a"
    have l': "rewrite_line U a l = ?l" unfolding eq using True by simp
    have "good_line ?l"
      unfolding w1_def r1_def w2_def by (rule rewritten_good[OF t a])
    then have t': "trimmed ?l" by (simp add: good_line_def)
    have len: "8 \<le> length r1" using True by (simp add: ci_prefix_def)
    then have r1: "r1 \<noteq> []" by auto
    then have "\<not> isspace (hd r1)" unfolding r1_def by (rule hd_dropWhile)
    then have h: "take 8 r1 @ w2 @ a \<noteq> []" "\<not> isspace (hd (take 8 r1 @ w2 @ a))"
      using r1 by (cases r1; simp)+
    have w1: "\<forall>x\<in>set w1. isspace x" unfolding w1_def by (auto dest: set_takeWhileD)
    have w2: "\<forall>x\<in>set w2. isspace x" unfolding w2_def by (auto dest: set_takeWhileD)
    have ha: "a \<noteq> []" "\<not> isspace (hd a)"
      using asone_shape[OF a] by (simp_all add: isspace_def)
    have 1: "takeWhile isspace ?l = w1" "dropWhile isspace ?l = take 8 r1 @ w2 @ a"
      using span_class[OF w1 h] by simp_all
    have 2: "drop 8 (take 8 r1 @ w2 @ a) = w2 @ a" "take 8 (take 8 r1 @ w2 @ a) = take 8 r1"
      using len by simp_all
    have 3: "takeWhile isspace (w2 @ a) = w2" "dropWhile isspace (w2 @ a) = a"
      using span_class[OF w2 ha] by simp_all
    have "rewrite_line U a' ?l = ?l"
      unfolding rewrite_line_eq[OF t'] 1 2 3 using asone_norm[OF a] by simp
    then show ?thesis unfolding l' .
  qed
qed

subsection \<open>Normalizing twice\<close>

text \<open>The replacement text that \<^verbatim>\<open>normalize_team_text\<close> chooses for a block.\<close>

definition asone_of :: "ucd \<Rightarrow> ustr list \<Rightarrow> ustr" where
  "asone_of U b = (if re_search U calyrex_ice (hd b) \<noteq> None then u ''As One (Glastrier)''
                   else u ''As One (Spectrier)'')"

lemma asone_of: "is_asone (asone_of U b)"
  by (simp add: asone_of_def is_asone_def)

lemma normalize_block_eq:
  "normalize_block U b = str_join [10] (map (rewrite_line U (asone_of U b)) b)"
  by (simp add: normalize_block_def asone_of_def Let_def)

lemma normalize_block_fun:
  "normalize_block U = (\<lambda>b. str_join [10] (map (rewrite_line U (asone_of U b)) b))"
  by (rule ext) (rule normalize_block_eq)

lemma normalize_block_good:
  assumes "good_block b"
  shows "good_block (map (rewrite_line U (asone_of U b)) b)"
  using assms by (auto simp: good_block_def list_all_iff intro: rewrite_line_good asone_of)

lemma normalize_block_fixed:
  assumes "list_all trimmed b" and that: "is_asone a"
  shows "normalize_block U (map (rewrite_line U a) b) = str_join [10] (map (rewrite_line U a) b)"
proof -
  have m: "map (rewrite_line U (asone_of U (map (rewrite_line U a) b)) \<circ> rewrite_line U a) b
          = map (rewrite_line U a) b"
    using assms by (auto simp: list_all_iff intro!: rewrite_line_idem asone_of)
  show ?thesis unfolding normalize_block_eq map_map m ..
qed

lemma normalize_lines:
  "normalize_team_text U t =
     str_join [10, 10] (map (normalize_block U)
       (collect_blocks [] (rev (dropWhile (\<lambda>l. l = []) (rev (dropWhile (\<lambda>l. l = [])
          (map str_rstrip (splitlines t)))))))) @ [10]"
  by (simp add: normalize_team_text_def Let_def)

lemma normalize_of_blocks:
  assumes "list_all good_block bs" and "bs \<noteq> []"
  shows "normalize_team_text U (str_join [10, 10] (map (str_join [10]) bs) @ [10])
           = str_join [10, 10] (map (normalize_block U) bs) @ [10]"
proof -
  have ne: "list_all (\<lambda>b. b \<noteq> []) bs"
    using assms(1) by (auto simp: list_all_iff good_block_def)
  have nel: "list_all (\<lambda>b. b \<noteq> [] \<and> list_all (\<lambda>l. l \<noteq> []) b) bs"
    using assms(1) by (auto simp: list_all_iff good_block_def good_line_def)
  have tr: "list_all (list_all trimmed) bs"
    using assms(1) by (auto simp: list_all_iff good_block_def good_line_def)
  have ft: "list_all trimmed (flat bs)"
    using tr by (rule flat_all) (simp add: trimmed_def)
  have ends: "flat bs \<noteq> []" "hd (flat bs) \<noteq> []" "last (flat bs) \<noteq> []"
    using flat_ends[OF assms(2) nel] by simp_all
  have T: "str_join [10, 10] (map (str_join [10]) bs) = str_join [10] (flat bs)"
    using ne by (rule str_join_flat)
  have 1: "splitlines (str_join [10] (flat bs) @ [10]) = flat bs"
    using ends(1) ft by (intro splitlines_join) (auto simp: list_all_iff trimmed_def)
  have 2: "map str_rstrip (flat bs) = flat bs"
    using ft by (auto simp: list_all_iff rstrip_trimmed intro: map_idI)
  have 3: "dropWhile (\<lambda>l. l = []) (flat bs) = flat bs"
    using ends by (intro dropWhile_id) simp
  have 4: "rev (dropWhile (\<lambda>l. l = []) (rev (flat bs))) = flat bs"
    using ends by (intro rev_dropWhile_id) simp
  have 5: "collect_blocks [] (flat bs) = bs"
    using nel by (rule collect_blocks_flat)
  show ?thesis
    unfolding normalize_lines T 1 2 3 4 5 ..
qed

text \<open>A team of two blocks, with a line to rewrite, and its normal form.\<close>

lemma sample_team:
  "normalize_team_text ucd_sample
     ([10] @ u ''Calyrex-Ice @ Leftovers  '' @ [13, 10] @ u ''ability:  as one '' @ [10, 32, 10, 10]
        @ u ''Eevee'' @ [10, 10])
   = u ''Calyrex-Ice @ Leftovers'' @ [10] @ u ''ability:  As One (Glastrier)'' @ [10, 10]
       @ u ''Eevee'' @ [10]"
  by (simp add: team_eval rx_eval str_eval char_eval)

text \<open>
  C8. \<^verbatim>\<open>normalize_team_text\<close> is idempotent: for every string, and whatever the Unicode
  tables say outside Basic Latin, normalizing the normalized text gives it back. The
  output of the first pass is the good blocks of rewritten lines, joined by one empty line
  and closed by one newline; the second pass splits it into the same lines, strips and
  trims nothing, collects the same blocks, and finds no ability left to rewrite, since a
  rewritten ability reads \<^verbatim>\<open>asoneglastrier\<close> or \<^verbatim>\<open>asonespectrier\<close> once reduced to its
  letters and digits.
\<close>

theorem normalize_team_text_idempotent:
  "normalize_team_text U (normalize_team_text U t) = normalize_team_text U t"
proof -
  define L where "L = rev (dropWhile (\<lambda>l. l = []) (rev (dropWhile (\<lambda>l. l = [])
          (map str_rstrip (splitlines t)))))"
  define bs where "bs = collect_blocks [] L"
  define bs' where "bs' = map (\<lambda>b. map (rewrite_line U (asone_of U b)) b) bs"
  have N: "normalize_team_text U t = str_join [10, 10] (map (str_join [10]) bs') @ [10]"
    unfolding normalize_lines L_def[symmetric] bs_def[symmetric] bs'_def normalize_block_fun
    by (simp add: comp_def)
  have "list_all (\<lambda>l. list_all (\<lambda>c. \<not> is_linebreak c) l) (splitlines t)"
    unfolding splitlines_def by (rule split_lines_no_break) simp
  then have "list_all trimmed (map str_rstrip (splitlines t))"
    by (auto simp: list_all_iff intro: trimmed_rstrip)
  moreover have "set L \<subseteq> set (map str_rstrip (splitlines t))"
    unfolding L_def by (auto dest!: set_dropWhileD)
  ultimately have Ltr: "list_all trimmed L" by (auto simp: list_all_iff)
  have "list_all (\<lambda>b. b \<noteq> [] \<and> list_all (\<lambda>l. l \<noteq> [] \<and> trimmed l) b) bs"
    unfolding bs_def using _ _ Ltr by (rule collect_blocks_good) simp_all
  then have good: "list_all good_block bs"
    by (auto simp: list_all_iff good_block_def good_line_def)
  then have good': "list_all good_block bs'"
    unfolding bs'_def by (auto simp: list_all_iff intro: normalize_block_good)
  have fixed: "map (normalize_block U) bs' = map (str_join [10]) bs'"
    unfolding bs'_def using good
    by (auto simp: list_all_iff good_block_def good_line_def
        intro!: normalize_block_fixed asone_of)
  show ?thesis
  proof (cases "bs' = []")
    case True
    then have "normalize_team_text U t = [10]" using N by simp
    moreover have "normalize_team_text U [10] = [10]"
      by (simp add: normalize_lines splitlines_def is_linebreak_def str_rstrip_def rstrip_by_def
          isspace_def)
    ultimately show ?thesis by simp
  next
    case False
    show ?thesis
      unfolding N normalize_of_blocks[OF good' False] fixed ..
  qed
qed

theorem normalize_team_text_idempotent_witness:
  "normalize_team_text ucd_sample
     (u ''Calyrex-Ice @ Leftovers'' @ [10] @ u ''ability:  As One (Glastrier)'' @ [10, 10]
       @ u ''Eevee'' @ [10])
   = u ''Calyrex-Ice @ Leftovers'' @ [10] @ u ''ability:  As One (Glastrier)'' @ [10, 10]
       @ u ''Eevee'' @ [10]"
  using normalize_team_text_idempotent [of ucd_sample
     "[10] @ u ''Calyrex-Ice @ Leftovers  '' @ [13, 10] @ u ''ability:  as one '' @ [10, 32, 10, 10]
        @ u ''Eevee'' @ [10, 10]"]
  unfolding sample_team .


section \<open>The orchestrator\<close>

text \<open>
  Exceptions are values. The spreadsheet, the paste service, the team parser and the
  similarity score are outside the program: they are the fields of \<open>env\<close>, functions of
  what the program passes to them, the same in every run against an unchanged source.
\<close>

datatype exn = StopIteration | ValueError | KeyError | IndexError | OSError
  | RequestError | ParserError

record env =
  sheet_names :: "exn + ustr list"
  sheet_rows :: "ustr \<Rightarrow> exn + ustr list list"
  paste_raw :: "ustr \<Rightarrow> exn + ustr"
  parse_showdown_team :: "ustr \<Rightarrow> exn + unit"
  similarity :: "ustr \<Rightarrow> ustr \<Rightarrow> real"

text \<open>
  The file system below the working directory: a path is the list of its components, a
  node is a directory or a file with its text.
\<close>

datatype node = Dir | File ustr

type_synonym path = "ustr list"
type_synonym filesys = "path \<Rightarrow> node option"

text \<open>
  \<^verbatim>\<open>Path.mkdir(parents=True, exist_ok=True)\<close>: every prefix of the path becomes a directory;
  a prefix that is a file raises (\<^verbatim>\<open>FileExistsError\<close> or \<^verbatim>\<open>NotADirectoryError\<close>, both
  \<^verbatim>\<open>OSError\<close>).
\<close>

fun mk_dirs :: "path \<Rightarrow> path \<Rightarrow> filesys \<Rightarrow> exn + filesys" where
  "mk_dirs base [] f = Inr f"
| "mk_dirs base (c # cs) f =
     (case f (base @ [c]) of
        Some (File x) \<Rightarrow> Inl OSError
      | Some Dir \<Rightarrow> mk_dirs (base @ [c]) cs f
      | None \<Rightarrow> mk_dirs (base @ [c]) cs (f(base @ [c] \<mapsto> Dir)))"

definition mkdir_p :: "path \<Rightarrow> filesys \<Rightarrow> exn + filesys" where
  "mkdir_p p f = mk_dirs [] p f"

text \<open>\<^verbatim>\<open>xs[i]\<close> for a Python integer index.\<close>

definition py_index :: "'a list \<Rightarrow> int \<Rightarrow> exn + 'a" where
  "py_index xs i =
     (if 0 \<le> i \<and> i < int (length xs) then Inr (xs ! nat i)
      else if i < 0 \<and> - int (length xs) \<le> i then Inr (xs ! nat (int (length xs) + i))
      else Inl IndexError)"

text \<open>\<^verbatim>\<open>featured_team_sheets_for_regulation\<close>\<close>

definition featured_team_sheets_for_regulation :: "ucd \<Rightarrow> ustr list \<Rightarrow> ustr \<Rightarrow> ustr list" where
  "featured_team_sheets_for_regulation U all_sheet_names regulation =
     (let reg = str_lower U (str_strip regulation);
          sheets = filter
            (\<lambda>name. let lname = str_lower U name
                    in contains lname (u ''featured'') \<and> \<not> contains lname (u ''presentable'')
                       \<and> (contains lname (u ''reg '' @ reg)
                            \<or> contains lname (u ''regulation '' @ reg)))
            all_sheet_names
      in if sheets = [] then [u ''Reg '' @ str_upper U regulation @ u '' Featured Teams'']
         else sheets)"

text \<open>
  \<^verbatim>\<open>fetch_pokepaste_raw\<close>: the paste id is what follows the last \<^verbatim>\<open>/\<close> of the URL without
  its trailing slashes; the text fetched from the raw URL is normalized.
\<close>

definition last_segment :: "ustr \<Rightarrow> ustr" where
  "last_segment s = rev (takeWhile (\<lambda>c. c \<noteq> 47) (rev s))"

definition fetch_pokepaste_raw :: "ucd \<Rightarrow> env \<Rightarrow> ustr \<Rightarrow> exn + ustr" where
  "fetch_pokepaste_raw U E pokepaste_url =
     (let paste_id = last_segment (rstrip_by (\<lambda>c. c = 47) pokepaste_url);
          raw_url = u ''https://pokepast.es/'' @ paste_id @ u ''/raw''
      in case paste_raw E raw_url of
           Inl e \<Rightarrow> Inl e
         | Inr body \<Rightarrow> Inr (normalize_team_text U body))"

text \<open>The header row and the columns (lines 353 to 364).\<close>

record columns =
  category_idx :: nat
  evs_idx :: nat
  pokepaste_idx :: nat
  event_idx :: nat
  rank_idx :: nat
  date_idx :: int

definition is_header_row :: "ustr list \<Rightarrow> bool" where
  "is_header_row r \<longleftrightarrow>
     (case r of [] \<Rightarrow> False
      | c # cs \<Rightarrow> str_strip c = u ''Team ID'' \<and> u ''Pokepaste'' \<in> set r)"

fun first_index :: "('a \<Rightarrow> bool) \<Rightarrow> 'a list \<Rightarrow> nat option" where
  "first_index P [] = None"
| "first_index P (x # xs) = (if P x then Some 0 else map_option Suc (first_index P xs))"

definition header_index :: "ustr list \<Rightarrow> string \<Rightarrow> exn + nat" where
  "header_index header name =
     (case list_index header (u name) of None \<Rightarrow> Inl ValueError | Some i \<Rightarrow> Inr i)"

definition resolve_columns :: "ustr list \<Rightarrow> exn + columns" where
  "resolve_columns header =
     (case header_index header ''Category'' of Inl e \<Rightarrow> Inl e | Inr c \<Rightarrow>
      case header_index header ''EVs'' of Inl e \<Rightarrow> Inl e | Inr v \<Rightarrow>
      case header_index header ''Pokepaste'' of Inl e \<Rightarrow> Inl e | Inr p \<Rightarrow>
      case header_index header ''Tournament / Event'' of Inl e \<Rightarrow> Inl e | Inr t \<Rightarrow>
      case header_index header ''Rank'' of Inl e \<Rightarrow> Inl e | Inr r \<Rightarrow>
      case (if u ''Date'' \<in> set header
            then (case header_index header ''Date'' of Inl e \<Rightarrow> Inl e | Inr d \<Rightarrow> Inr (int d))
            else Inr (int t - 1)) of Inl e \<Rightarrow> Inl e | Inr d \<Rightarrow>
        Inr \<lparr> category_idx = c, evs_idx = v, pokepaste_idx = p, event_idx = t,
              rank_idx = r, date_idx = d \<rparr>)"

text \<open>The state of one run.\<close>

record run_state =
  fs :: filesys
  seen_teams :: "ustr list"
  saved :: nat
  skipped_duplicates :: nat
  skipped_banned :: nat
  skipped_existing :: nat
  event_subdirs :: "ustr \<Rightarrow> path option"

definition allowed_events :: "ustr list" where
  "allowed_events = [u ''regional'', u ''euic'', u ''laic'', u ''naic'', u ''worlds'']"

text \<open>
  The body of the loop over the rows, after the team has been appended to
  \<^verbatim>\<open>seen_teams\<close> (lines 393 to 421). The result is the state the body ends in and the
  exception it raises there, \<open>None\<close> at \<^verbatim>\<open>continue\<close> and at the end of the body.
\<close>

definition place_row ::
  "ucd \<Rightarrow> path \<Rightarrow> columns \<Rightarrow> ustr list \<Rightarrow> ustr \<Rightarrow> run_state \<Rightarrow> run_state \<times> exn option" where
  "place_row U reg_dir cols row team_text st =
     (case py_index row (int (event_idx cols)) of Inl e \<Rightarrow> (st, Some e) | Inr event_cell \<Rightarrow>
      let event_name = str_strip event_cell;
          event_lower = str_lower U event_name
      in if \<not> list_ex (\<lambda>kw. contains event_lower kw) allowed_events then (st, None)
         else if contains event_lower (u ''seniors'') \<or> contains event_lower (u ''juniors'')
         then (st, None)
         else if contains event_name (u ''&'') then (st, None)
         else
           (case py_index row (date_idx cols) of Inl e \<Rightarrow> (st, Some e) | Inr date_cell \<Rightarrow>
            case py_index row (int (rank_idx cols)) of Inl e \<Rightarrow> (st, Some e) | Inr rank_cell \<Rightarrow>
            let date_str = str_strip date_cell;
                placement = str_strip rank_cell
            in if contains placement (u ''juniors'') \<or> contains placement (u ''seniors'')
               then (st, None)
               else
                 (let key = event_key U event_name date_str;
                      event_subdir =
                        (case event_subdirs st key of
                           None \<Rightarrow> reg_dir @ [event_dir_name U event_name date_str]
                         | Some p \<Rightarrow> p);
                      st0 = st\<lparr> event_subdirs := (event_subdirs st)(key \<mapsto> event_subdir) \<rparr>
                  in case mkdir_p event_subdir (fs st) of Inl e \<Rightarrow> (st0, Some e) | Inr f1 \<Rightarrow>
                     let st1 = st0\<lparr> fs := f1 \<rparr>;
                         base_filename = placement_to_filename U placement
                     in case base_filename of [] \<Rightarrow> (st1, Some IndexError) | c # rest \<Rightarrow>
                        if \<not> char_isdigit U c then (st1, None)
                        else
                          (let out_path = event_subdir @ [base_filename @ u ''.txt'']
                           in if f1 out_path \<noteq> None
                              then (st1\<lparr> skipped_existing := skipped_existing st1 + 1 \<rparr>, None)
                              else (st1\<lparr> fs := f1(out_path \<mapsto> File team_text),
                                         saved := saved st1 + 1 \<rparr>, None)))))"

text \<open>
  The body of the loop over the rows (lines 366 to 392, then \<open>place_row\<close>), with the
  state it ends in and the exception it raises there, if any.
\<close>

definition process_row ::
  "ucd \<Rightarrow> env \<Rightarrow> path \<Rightarrow> columns \<Rightarrow> ustr list \<Rightarrow> run_state \<Rightarrow> run_state \<times> exn option" where
  "process_row U E reg_dir cols row st =
     (if int (length row) \<le>
           max (int (category_idx cols)) (max (int (evs_idx cols)) (max (int (pokepaste_idx cols))
             (max (int (event_idx cols)) (max (int (rank_idx cols)) (date_idx cols)))))
      then (st, None)
      else
        (case py_index row (int (category_idx cols)) of Inl e \<Rightarrow> (st, Some e) | Inr category_cell \<Rightarrow>
         if str_lower U (str_strip category_cell) \<noteq> u ''in person event'' then (st, None)
         else
           (case py_index row (int (evs_idx cols)) of Inl e \<Rightarrow> (st, Some e) | Inr evs_cell \<Rightarrow>
            if str_lower U (str_strip evs_cell) \<noteq> u ''yes'' then (st, None)
            else
              (case py_index row (int (pokepaste_idx cols)) of Inl e \<Rightarrow> (st, Some e) | Inr paste_cell \<Rightarrow>
               let pokepaste = str_strip paste_cell
               in if \<not> startswith pokepaste (u ''https://pokepast.es/'') then (st, None)
                  else
                    (case fetch_pokepaste_raw U E pokepaste of Inl e \<Rightarrow> (st, Some e) | Inr team_text \<Rightarrow>
                     if has_banned_move_or_ability U team_text
                     then (st\<lparr> skipped_banned := skipped_banned st + 1 \<rparr>, None)
                     else
                       (case parse_showdown_team E team_text of
                          Inl e \<Rightarrow> (if e = KeyError then (st, None) else (st, Some e))
                        | Inr ok \<Rightarrow>
                            if list_ex (\<lambda>prev. similarity E team_text prev = 1) (seen_teams st)
                            then (st\<lparr> skipped_duplicates := skipped_duplicates st + 1 \<rparr>, None)
                            else place_row U reg_dir cols row team_text
                                   (st\<lparr> seen_teams := seen_teams st @ [team_text] \<rparr>)))))))"

text \<open>
  The loops. An exception ends the run: the result of a loop is the state in which it
  ended and the exception, \<open>None\<close> when the loop ran to its end.
\<close>

fun rows_loop ::
  "ucd \<Rightarrow> env \<Rightarrow> path \<Rightarrow> columns \<Rightarrow> ustr list list \<Rightarrow> run_state \<Rightarrow> run_state \<times> exn option" where
  "rows_loop U E reg_dir cols [] st = (st, None)"
| "rows_loop U E reg_dir cols (row # rows) st =
     (case process_row U E reg_dir cols row st of
        (st', Some e) \<Rightarrow> (st', Some e)
      | (st', None) \<Rightarrow> rows_loop U E reg_dir cols rows st')"

definition process_sheet ::
  "ucd \<Rightarrow> env \<Rightarrow> path \<Rightarrow> ustr \<Rightarrow> run_state \<Rightarrow> run_state \<times> exn option" where
  "process_sheet U E reg_dir sheet_name st =
     (case sheet_rows E sheet_name of Inl e \<Rightarrow> (st, Some e) | Inr rows \<Rightarrow>
      case first_index is_header_row rows of None \<Rightarrow> (st, Some StopIteration)
      | Some header_row_idx \<Rightarrow>
          (case resolve_columns (rows ! header_row_idx) of Inl e \<Rightarrow> (st, Some e)
           | Inr cols \<Rightarrow> rows_loop U E reg_dir cols (drop (header_row_idx + 1) rows) st))"

fun sheets_loop ::
  "ucd \<Rightarrow> env \<Rightarrow> path \<Rightarrow> ustr list \<Rightarrow> run_state \<Rightarrow> run_state \<times> exn option" where
  "sheets_loop U E reg_dir [] st = (st, None)"
| "sheets_loop U E reg_dir (sheet_name # names) st =
     (case process_sheet U E reg_dir sheet_name st of
        (st', Some e) \<Rightarrow> (st', Some e)
      | (st', None) \<Rightarrow> sheets_loop U E reg_dir names st')"

definition initial_state :: "filesys \<Rightarrow> run_state" where
  "initial_state f =
     \<lparr> fs = f, seen_teams = [], saved = 0, skipped_duplicates = 0, skipped_banned = 0,
       skipped_existing = 0, event_subdirs = Map.empty \<rparr>"

text \<open>
  \<^verbatim>\<open>scrape_regulation\<close>, started on the file system \<open>f\<close>. The result is the final state
  (with the file system the run leaves behind) and the exception that ended the run, if
  any. The four summary lines are printed when there is none.
\<close>

definition scrape_regulation ::
  "ucd \<Rightarrow> env \<Rightarrow> ustr \<Rightarrow> filesys \<Rightarrow> run_state \<times> exn option" where
  "scrape_regulation U E regulation f =
     (let reg_dir = [u ''data'', u ''teams'', u ''reg'' @ str_lower U regulation]
      in case mkdir_p reg_dir f of Inl e \<Rightarrow> (initial_state f, Some e) | Inr f1 \<Rightarrow>
         case sheet_names E of Inl e \<Rightarrow> (initial_state f1, Some e) | Inr all_sheet_names \<Rightarrow>
           sheets_loop U E reg_dir
             (featured_team_sheets_for_regulation U all_sheet_names regulation)
             (initial_state f1))"

text \<open>What the run prints: saved, already existing, banned, duplicates.\<close>

definition printed_summary :: "run_state \<times> exn option \<Rightarrow> (nat \<times> nat \<times> nat \<times> nat) option" where
  "printed_summary r =
     (case snd r of
        Some e \<Rightarrow> None
      | None \<Rightarrow> Some (saved (fst r), skipped_existing (fst r), skipped_banned (fst r),
                      skipped_duplicates (fst r)))"



section \<open>Properties of the orchestrator\<close>

text \<open>Unfolding rules for evaluating the orchestrator on concrete sources.\<close>

lemmas col_eval = resolve_columns_def header_index_def

lemmas orch_eval = scrape_regulation_def process_sheet_def process_row_def place_row_def
  py_index_def mkdir_p_def fetch_pokepaste_raw_def last_segment_def
  featured_team_sheets_for_regulation_def is_header_row_def initial_state_def
  allowed_events_def printed_summary_def

subsection \<open>Columns\<close>

lemma list_index_Some:
  "list_index xs x = Some i \<Longrightarrow> i < length xs \<and> xs ! i = x \<and> (\<forall>j < i. xs ! j \<noteq> x)"
proof (induction xs arbitrary: i)
  case Nil
  then show ?case by simp
next
  case (Cons y ys)
  show ?case
  proof (cases "y = x")
    case True
    then show ?thesis using Cons.prems by simp
  next
    case False
    then obtain k where k: "list_index ys x = Some k" "i = Suc k"
      using Cons.prems by auto
    from Cons.IH[OF k(1)] show ?thesis
      using False k(2) by (auto simp: nth_Cons split: nat.splits)
  qed
qed

lemma list_index_None: "list_index xs x = None \<longleftrightarrow> x \<notin> set xs"
  by (induction xs) auto

lemma header_index_Inr:
  "header_index header name = Inr i \<Longrightarrow>
     i < length header \<and> header ! i = u name \<and> (\<forall>j < i. header ! j \<noteq> u name)"
  using list_index_Some[of header "u name" i]
  by (auto simp: header_index_def split: option.splits)

lemma header_index_Inl:
  "header_index header name = Inl e \<Longrightarrow> e = ValueError \<and> u name \<notin> set header"
  using list_index_None[of header "u name"]
  by (auto simp: header_index_def split: option.splits)

text \<open>A header row without a \<^verbatim>\<open>Date\<close> column.\<close>

definition sample_header :: "ustr list" where
  "sample_header = [u ''Team ID'', u ''Category'', u ''EVs'', u ''Pokepaste'', u ''Owner'',
                    u ''Tournament / Event'', u ''Rank'']"

lemma sample_cols: "resolve_columns sample_header =
      Inr \<lparr> category_idx = 1, evs_idx = 2, pokepaste_idx = 3, event_idx = 5, rank_idx = 6,
            date_idx = 4 \<rparr>"
  by (simp add: sample_header_def col_eval u_def)

text \<open>A header row with a \<^verbatim>\<open>Date\<close> column and two columns named \<^verbatim>\<open>Rank\<close>.\<close>

definition twice_ranked_header :: "ustr list" where
  "twice_ranked_header = [u ''Team ID'', u ''Category'', u ''EVs'', u ''Pokepaste'', u ''Date'',
                          u ''Tournament / Event'', u ''Rank'', u ''Rank'']"

lemma twice_ranked_cols: "resolve_columns twice_ranked_header =
      Inr \<lparr> category_idx = 1, evs_idx = 2, pokepaste_idx = 3, event_idx = 5, rank_idx = 6,
            date_idx = 4 \<rparr>"
  by (simp add: twice_ranked_header_def col_eval u_def)

text \<open>
  C5 (as amended). When the columns of a header row are resolved, the category, EVs,
  paste, event and rank columns are the first columns whose header text is \<^verbatim>\<open>Category\<close>,
  \<^verbatim>\<open>EVs\<close>, \<^verbatim>\<open>Pokepaste\<close>, \<^verbatim>\<open>Tournament / Event\<close> and \<^verbatim>\<open>Rank\<close>: the text is there, and in no
  earlier column. The date column is the first one whose header text is \<^verbatim>\<open>Date\<close> when
  the row has one; otherwise it is the column just before the event column.
\<close>

theorem resolve_columns_by_header:
  assumes "resolve_columns header = Inr cols"
  shows "header ! category_idx cols = u ''Category''
       \<and> header ! evs_idx cols = u ''EVs''
       \<and> header ! pokepaste_idx cols = u ''Pokepaste''
       \<and> header ! event_idx cols = u ''Tournament / Event''
       \<and> header ! rank_idx cols = u ''Rank''
       \<and> category_idx cols < length header \<and> evs_idx cols < length header
       \<and> pokepaste_idx cols < length header \<and> event_idx cols < length header
       \<and> rank_idx cols < length header
       \<and> (\<forall>j < category_idx cols. header ! j \<noteq> u ''Category'')
       \<and> (\<forall>j < evs_idx cols. header ! j \<noteq> u ''EVs'')
       \<and> (\<forall>j < pokepaste_idx cols. header ! j \<noteq> u ''Pokepaste'')
       \<and> (\<forall>j < event_idx cols. header ! j \<noteq> u ''Tournament / Event'')
       \<and> (\<forall>j < rank_idx cols. header ! j \<noteq> u ''Rank'')
       \<and> (if u ''Date'' \<in> set header
          then 0 \<le> date_idx cols \<and> nat (date_idx cols) < length header
               \<and> header ! nat (date_idx cols) = u ''Date''
               \<and> (\<forall>j < nat (date_idx cols). header ! j \<noteq> u ''Date'')
          else date_idx cols = int (event_idx cols) - 1)"
proof -
  from assms obtain c v p t r d where
    c: "header_index header ''Category'' = Inr c" and
    v: "header_index header ''EVs'' = Inr v" and
    p: "header_index header ''Pokepaste'' = Inr p" and
    t: "header_index header ''Tournament / Event'' = Inr t" and
    r: "header_index header ''Rank'' = Inr r" and
    d: "(if u ''Date'' \<in> set header
         then (case header_index header ''Date'' of Inl e \<Rightarrow> Inl e | Inr d \<Rightarrow> Inr (int d))
         else Inr (int t - 1)) = Inr d" and
    cols: "cols = \<lparr> category_idx = c, evs_idx = v, pokepaste_idx = p, event_idx = t,
              rank_idx = r, date_idx = d \<rparr>"
    unfolding resolve_columns_def by (auto split: sum.splits)
  have dd: "if u ''Date'' \<in> set header
          then 0 \<le> d \<and> nat d < length header \<and> header ! nat d = u ''Date''
               \<and> (\<forall>j < nat d. header ! j \<noteq> u ''Date'')
          else d = int t - 1"
  proof (cases "u ''Date'' \<in> set header")
    case True
    then obtain k where k: "header_index header ''Date'' = Inr k" "d = int k"
      using d by (auto split: sum.splits)
    then show ?thesis using header_index_Inr[OF k(1)] True by simp
  next
    case False
    then show ?thesis using d by simp
  qed
  show ?thesis
    using header_index_Inr[OF c] header_index_Inr[OF v] header_index_Inr[OF p]
      header_index_Inr[OF t] header_index_Inr[OF r] dd
    by (simp add: cols)
qed

theorem resolve_columns_by_header_witness:
  "twice_ranked_header ! 6 = u ''Rank'' \<and> twice_ranked_header ! 7 = u ''Rank''
   \<and> twice_ranked_header ! 5 \<noteq> u ''Rank'' \<and> twice_ranked_header ! 0 \<noteq> u ''Rank''
   \<and> twice_ranked_header ! 1 = u ''Category'' \<and> twice_ranked_header ! 2 = u ''EVs''
   \<and> twice_ranked_header ! 3 = u ''Pokepaste''
   \<and> twice_ranked_header ! 5 = u ''Tournament / Event''
   \<and> twice_ranked_header ! 4 = u ''Date'' \<and> twice_ranked_header ! 3 \<noteq> u ''Date''
   \<and> sample_header ! 6 = u ''Rank''
   \<and> date_idx \<lparr> category_idx = 1, evs_idx = 2, pokepaste_idx = 3, event_idx = 5,
                  rank_idx = 6, date_idx = 4 \<rparr> = int 5 - 1"
proof -
  have d: "u ''Date'' \<in> set twice_ranked_header"
    by (simp add: twice_ranked_header_def)
  have "twice_ranked_header ! 7 = u ''Rank''"
    by (simp add: twice_ranked_header_def)
  then show ?thesis
    using resolve_columns_by_header [OF twice_ranked_cols]
      resolve_columns_by_header [OF sample_cols] d
    by (simp add: sample_header_def u_def)
qed

text \<open>
  The claim as stated fails for the date column: in a header row without \<^verbatim>\<open>Date\<close> the
  date column is found by its position, and its header text is something else.
\<close>

theorem resolve_columns_date_counterexample:
  "u ''Date'' \<notin> set sample_header
   \<and> resolve_columns sample_header =
      Inr \<lparr> category_idx = 1, evs_idx = 2, pokepaste_idx = 3, event_idx = 5, rank_idx = 6,
            date_idx = 4 \<rparr>
   \<and> sample_header ! 4 = u ''Owner''"
  by (simp add: sample_header_def col_eval u_def)


subsection \<open>A sheet without a header row\<close>

lemma first_index_None: "list_all (\<lambda>x. \<not> P x) xs \<Longrightarrow> first_index P xs = None"
  by (induction xs) auto

lemma process_sheet_no_header:
  "sheet_rows E sheet_name = Inr rows \<Longrightarrow> list_all (\<lambda>r. \<not> is_header_row r) rows
   \<Longrightarrow> process_sheet U E reg_dir sheet_name st = (st, Some StopIteration)"
  by (simp add: process_sheet_def first_index_None)

lemma sheets_loop_append:
  "sheets_loop U E reg_dir earlier st = (st', None)
   \<Longrightarrow> sheets_loop U E reg_dir (earlier @ later) st = sheets_loop U E reg_dir later st'"
proof (induction earlier arbitrary: st)
  case Nil
  then show ?case by simp
next
  case (Cons n ns)
  obtain s1 r1 where p: "process_sheet U E reg_dir n st = (s1, r1)"
    by (cases "process_sheet U E reg_dir n st")
  show ?case
  proof (cases r1)
    case None
    then show ?thesis using Cons p by simp
  next
    case (Some e)
    then show ?thesis using Cons.prems p by simp
  qed
qed

text \<open>A source whose only sheet has no header row.\<close>

definition headerless_env :: env where
  "headerless_env =
     \<lparr> sheet_names = Inr [u ''Reg G Featured Teams''],
       sheet_rows = (\<lambda>name. Inr [[u ''Featured Teams''], [u ''1'', u ''In Person Event'']]),
       paste_raw = (\<lambda>url. Inl RequestError),
       parse_showdown_team = (\<lambda>t. Inr ()),
       similarity = (\<lambda>a b. 0) \<rparr>"

text \<open>
  C4 (as amended). When a fetched sheet has no header row, the search for it raises
  \<^verbatim>\<open>StopIteration\<close>, which nothing catches: the run ends at that sheet with the state
  the earlier sheets left, the later sheets are not read and no summary is printed.
\<close>

theorem missing_header_aborts:
  assumes "sheets_loop U E reg_dir earlier st = (st', None)"
    and "sheet_rows E sheet_name = Inr rows"
    and "list_all (\<lambda>r. \<not> is_header_row r) rows"
  shows "sheets_loop U E reg_dir (earlier @ sheet_name # later) st = (st', Some StopIteration)
       \<and> printed_summary (sheets_loop U E reg_dir (earlier @ sheet_name # later) st) = None"
proof -
  have "sheets_loop U E reg_dir (sheet_name # later) st' = (st', Some StopIteration)"
    using process_sheet_no_header[OF assms(2,3)] by simp
  then have "sheets_loop U E reg_dir (earlier @ sheet_name # later) st = (st', Some StopIteration)"
    using sheets_loop_append[OF assms(1)] by simp
  then show ?thesis by (simp add: printed_summary_def)
qed

theorem missing_header_aborts_witness:
  "sheets_loop ucd_sample headerless_env [u ''data'', u ''teams'', u ''regg'']
     ([] @ u ''Reg G Featured Teams'' # []) (initial_state Map.empty)
   = (initial_state Map.empty, Some StopIteration)"
proof -
  have 1: "sheets_loop ucd_sample headerless_env [u ''data'', u ''teams'', u ''regg''] []
             (initial_state Map.empty) = (initial_state Map.empty, None)"
    by simp
  have 2: "sheet_rows headerless_env (u ''Reg G Featured Teams'')
             = Inr [[u ''Featured Teams''], [u ''1'', u ''In Person Event'']]"
    by (simp add: headerless_env_def)
  have 3: "list_all (\<lambda>r. \<not> is_header_row r) [[u ''Featured Teams''], [u ''1'', u ''In Person Event'']]"
    by (simp add: is_header_row_def str_eval char_eval)
  show ?thesis
    using missing_header_aborts [OF 1 2 3, of "[]"] by simp
qed

text \<open>
  The claim as stated fails: on a source whose sheet has no header row the run ends
  with the exception and prints nothing.
\<close>

theorem missing_header_counterexample:
  "snd (scrape_regulation ucd_sample headerless_env (u ''G'') Map.empty) = Some StopIteration
   \<and> printed_summary (scrape_regulation ucd_sample headerless_env (u ''G'') Map.empty) = None"
  by (simp add: orch_eval headerless_env_def str_eval char_eval)



subsection \<open>Sample sheets\<close>

text \<open>
  A header row with a \<^verbatim>\<open>Date\<close> column, its columns, and a row of an in-person event with
  EVs, a paste, an empty date, an event name and a rank.
\<close>

definition dated_header :: "ustr list" where
  "dated_header = [u ''Team ID'', u ''Category'', u ''EVs'', u ''Pokepaste'', u ''Date'',
                   u ''Tournament / Event'', u ''Rank'']"

definition team_row :: "string \<Rightarrow> string \<Rightarrow> string \<Rightarrow> ustr list" where
  "team_row paste event rank =
     [u ''1'', u ''In Person Event'', u ''Yes'', u ''https://pokepast.es/'' @ u paste, [],
      u event, u rank]"

definition dated_cols :: columns where
  "dated_cols = \<lparr> category_idx = 1, evs_idx = 2, pokepaste_idx = 3, event_idx = 5,
                   rank_idx = 6, date_idx = 4 \<rparr>"

definition reg_g :: path where
  "reg_g = [u ''data'', u ''teams'', u ''regg'']"

lemmas fixture_eval = dated_header_def team_row_def dated_cols_def reg_g_def

lemmas all_eval = orch_eval col_eval event_eval date_eval team_eval rx_eval str_eval char_eval
  has_banned_move_or_ability_def ability_line_def placement_to_filename_def fixture_eval
  ucd_sample_def rows_loop.simps sheets_loop.simps first_index.simps


subsection \<open>The ledger\<close>

lemma place_row_seen_teams:
  "place_row U reg_dir cols row team_text st = (st', r) \<Longrightarrow> seen_teams st' = seen_teams st"
  unfolding place_row_def Let_def
  by (auto split: sum.splits list.splits if_splits)

lemma process_row_admitted:
  assumes "\<not> int (length row) \<le>
           max (int (category_idx cols)) (max (int (evs_idx cols)) (max (int (pokepaste_idx cols))
             (max (int (event_idx cols)) (max (int (rank_idx cols)) (date_idx cols)))))"
    and "py_index row (int (category_idx cols)) = Inr category_cell"
    and "str_lower U (str_strip category_cell) = u ''in person event''"
    and "py_index row (int (evs_idx cols)) = Inr evs_cell"
    and "str_lower U (str_strip evs_cell) = u ''yes''"
    and "py_index row (int (pokepaste_idx cols)) = Inr paste_cell"
    and "startswith (str_strip paste_cell) (u ''https://pokepast.es/'')"
    and "fetch_pokepaste_raw U E (str_strip paste_cell) = Inr team_text"
    and "\<not> has_banned_move_or_ability U team_text"
    and "parse_showdown_team E team_text = Inr ()"
  shows "process_row U E reg_dir cols row st =
          (if list_ex (\<lambda>prev. similarity E team_text prev = 1) (seen_teams st)
           then (st\<lparr> skipped_duplicates := skipped_duplicates st + 1 \<rparr>, None)
           else place_row U reg_dir cols row team_text
                  (st\<lparr> seen_teams := seen_teams st @ [team_text] \<rparr>))"
proof -
  note rest = assms(2-10)
  show ?thesis
    unfolding process_row_def
    by (subst if_not_P[OF assms(1)]) (simp only: rest sum.case Let_def if_True if_False
        not_True_eq_False not_False_eq_True simp_thms)
qed


text \<open>
  A source with the same team twice: first at an event that is not of a recognized tier,
  then as the winner of Worlds.
\<close>

definition unplaced_env :: env where
  "unplaced_env =
     \<lparr> sheet_names = Inr [u ''Reg G Featured Teams''],
       sheet_rows = (\<lambda>name. Inr [dated_header, team_row ''a'' ''Cup'' ''1st'',
                                   team_row ''a'' ''Worlds'' ''1st'']),
       paste_raw = (\<lambda>url. Inr (u ''Pikachu'')),
       parse_showdown_team = (\<lambda>t. Inr ()),
       similarity = (\<lambda>a b. if a = b then 1 else 0) \<rparr>"

lemma unplaced_run:
  "scrape_regulation ucd_sample unplaced_env (u ''G'') Map.empty =
     ((initial_state [[u ''data''] \<mapsto> Dir, [u ''data'', u ''teams''] \<mapsto> Dir, reg_g \<mapsto> Dir])
        \<lparr> seen_teams := [u ''Pikachu'' @ [10]], skipped_duplicates := 1 \<rparr>, None)"
  by (simp add: all_eval unplaced_env_def)



text \<open>
  C9. A row that passes every check up to and including the duplicate check is handed to
  the placement step with its team already appended to \<^verbatim>\<open>seen_teams\<close>, and the placement
  step never changes the ledger: whatever the event, division, placement and file checks
  decide, and also when the step raises, the team stays in the ledger. On the source \<open>unplaced_env\<close> the first row is
  dropped by the event-name check and writes no file, and the second row, with the same
  team, is counted as a duplicate: the run saves nothing and reports one duplicate.
\<close>

theorem ledger_append_precedes_placement:
  assumes "\<not> int (length row) \<le>
           max (int (category_idx cols)) (max (int (evs_idx cols)) (max (int (pokepaste_idx cols))
             (max (int (event_idx cols)) (max (int (rank_idx cols)) (date_idx cols)))))"
    and "py_index row (int (category_idx cols)) = Inr category_cell"
    and "str_lower U (str_strip category_cell) = u ''in person event''"
    and "py_index row (int (evs_idx cols)) = Inr evs_cell"
    and "str_lower U (str_strip evs_cell) = u ''yes''"
    and "py_index row (int (pokepaste_idx cols)) = Inr paste_cell"
    and "startswith (str_strip paste_cell) (u ''https://pokepast.es/'')"
    and "fetch_pokepaste_raw U E (str_strip paste_cell) = Inr team_text"
    and "\<not> has_banned_move_or_ability U team_text"
    and "parse_showdown_team E team_text = Inr ()"
    and "\<not> list_ex (\<lambda>prev. similarity E team_text prev = 1) (seen_teams st)"
    and "process_row U E reg_dir cols row st = (st', r)"
  shows "process_row U E reg_dir cols row st
           = place_row U reg_dir cols row team_text
               (st\<lparr> seen_teams := seen_teams st @ [team_text] \<rparr>)
       \<and> seen_teams st' = seen_teams st @ [team_text]
       \<and> scrape_regulation ucd_sample unplaced_env (u ''G'') Map.empty =
           ((initial_state [[u ''data''] \<mapsto> Dir, [u ''data'', u ''teams''] \<mapsto> Dir,
                            reg_g \<mapsto> Dir])
              \<lparr> seen_teams := [u ''Pikachu'' @ [10]], skipped_duplicates := 1 \<rparr>, None)
       \<and> printed_summary (scrape_regulation ucd_sample unplaced_env (u ''G'') Map.empty)
           = Some (0, 0, 0, 1)"
proof -
  have p: "process_row U E reg_dir cols row st
             = place_row U reg_dir cols row team_text
                 (st\<lparr> seen_teams := seen_teams st @ [team_text] \<rparr>)"
    using process_row_admitted[OF assms(1-10)] assms(11) by simp
  then have "place_row U reg_dir cols row team_text
               (st\<lparr> seen_teams := seen_teams st @ [team_text] \<rparr>) = (st', r)"
    using assms(12) by simp
  then have "seen_teams st' = seen_teams (st\<lparr> seen_teams := seen_teams st @ [team_text] \<rparr>)"
    by (rule place_row_seen_teams)
  then have "seen_teams st' = seen_teams st @ [team_text]" by simp
  moreover have "printed_summary (scrape_regulation ucd_sample unplaced_env (u ''G'') Map.empty)
           = Some (0, 0, 0, 1)"
    unfolding unplaced_run by (simp add: printed_summary_def initial_state_def)
  ultimately show ?thesis using p unplaced_run by simp
qed

theorem ledger_append_precedes_placement_witness:
  "process_row ucd_sample unplaced_env reg_g dated_cols (team_row ''a'' ''Cup'' ''1st'')
     (initial_state Map.empty)
   = ((initial_state Map.empty)\<lparr> seen_teams := [u ''Pikachu'' @ [10]] \<rparr>, None)
   \<and> seen_teams ((initial_state Map.empty)\<lparr> seen_teams := [u ''Pikachu'' @ [10]] \<rparr>)
       = seen_teams (initial_state Map.empty) @ [u ''Pikachu'' @ [10]]"
proof -
  let ?row = "team_row ''a'' ''Cup'' ''1st''"
  let ?st = "initial_state Map.empty"
  have r: "process_row ucd_sample unplaced_env reg_g dated_cols ?row ?st
             = (?st\<lparr> seen_teams := [u ''Pikachu'' @ [10]] \<rparr>, None)"
    by (simp add: all_eval unplaced_env_def)
  have 1: "\<not> int (length ?row) \<le>
           max (int (category_idx dated_cols)) (max (int (evs_idx dated_cols))
             (max (int (pokepaste_idx dated_cols)) (max (int (event_idx dated_cols))
               (max (int (rank_idx dated_cols)) (date_idx dated_cols)))))"
    by (simp add: fixture_eval)
  have 2: "py_index ?row (int (category_idx dated_cols)) = Inr (u ''In Person Event'')"
    by (simp add: fixture_eval py_index_def)
  have 3: "str_lower ucd_sample (str_strip (u ''In Person Event'')) = u ''in person event''"
    by (simp add: str_eval char_eval)
  have 4: "py_index ?row (int (evs_idx dated_cols)) = Inr (u ''Yes'')"
    by (simp add: fixture_eval py_index_def)
  have 5: "str_lower ucd_sample (str_strip (u ''Yes'')) = u ''yes''"
    by (simp add: str_eval char_eval)
  have 6: "py_index ?row (int (pokepaste_idx dated_cols)) = Inr (u ''https://pokepast.es/'' @ u ''a'')"
    by (simp add: fixture_eval py_index_def)
  have 7: "startswith (str_strip (u ''https://pokepast.es/'' @ u ''a'')) (u ''https://pokepast.es/'')"
    by (simp add: str_eval char_eval)
  have 8: "fetch_pokepaste_raw ucd_sample unplaced_env (str_strip (u ''https://pokepast.es/'' @ u ''a''))
             = Inr (u ''Pikachu'' @ [10])"
    by (simp add: fetch_pokepaste_raw_def unplaced_env_def team_eval rx_eval str_eval char_eval)
  have 9: "\<not> has_banned_move_or_ability ucd_sample (u ''Pikachu'' @ [10])"
    by (simp add: has_banned_move_or_ability_def ability_line_def rx_eval str_eval char_eval)
  have 10: "parse_showdown_team unplaced_env (u ''Pikachu'' @ [10]) = Inr ()"
    by (simp add: unplaced_env_def)
  have 11: "\<not> list_ex (\<lambda>prev. similarity unplaced_env (u ''Pikachu'' @ [10]) prev = 1)
                 (seen_teams ?st)"
    by (simp add: initial_state_def)
  from ledger_append_precedes_placement [OF 1 2 3 4 5 6 7 8 9 10 11 r] r
  show ?thesis by simp
qed



subsection \<open>Running twice\<close>

text \<open>
  \<open>rerun F s s'\<close> relates the state \<open>s\<close> of a run to the state \<open>s'\<close>, at the same point, of
  a second run that was started on the file system \<open>F\<close> the first run left behind.
\<close>

definition rerun :: "filesys \<Rightarrow> run_state \<Rightarrow> run_state \<Rightarrow> bool" where
  "rerun F s s' \<longleftrightarrow>
     fs s' = F \<and> seen_teams s' = seen_teams s \<and> event_subdirs s' = event_subdirs s \<and>
     skipped_banned s' = skipped_banned s \<and> skipped_duplicates s' = skipped_duplicates s \<and>
     saved s' = 0 \<and> skipped_existing s' = saved s + skipped_existing s"

lemma mk_dirs_mono: "mk_dirs base p f = Inr f' \<Longrightarrow> f \<subseteq>\<^sub>m f'"
proof (induction p arbitrary: base f)
  case Nil
  then show ?case by simp
next
  case (Cons c cs)
  show ?case
  proof (cases "f (base @ [c])")
    case None
    then have "mk_dirs (base @ [c]) cs (f(base @ [c] \<mapsto> Dir)) = Inr f'"
      using Cons.prems by simp
    then have "f(base @ [c] \<mapsto> Dir) \<subseteq>\<^sub>m f'" by (rule Cons.IH)
    moreover have "f \<subseteq>\<^sub>m f(base @ [c] \<mapsto> Dir)"
      using None by (fastforce simp: map_le_def dom_def)
    ultimately show ?thesis by (rule map_le_trans[rotated])
  next
    case (Some n)
    then show ?thesis using Cons by (cases n) auto
  qed
qed

lemma mk_dirs_again: "mk_dirs base p f = Inr f' \<Longrightarrow> f' \<subseteq>\<^sub>m F \<Longrightarrow> mk_dirs base p F = Inr F"
proof (induction p arbitrary: base f)
  case Nil
  then show ?case by simp
next
  case (Cons c cs)
  let ?q = "base @ [c]"
  obtain f1 where f1: "mk_dirs ?q cs f1 = Inr f'" "f1 ?q = Some Dir"
  proof (cases "f ?q")
    case None
    then show ?thesis using Cons.prems(1) that[of "f(?q \<mapsto> Dir)"] by simp
  next
    case (Some n)
    then show ?thesis using Cons.prems(1) that[of f] by (cases n) auto
  qed
  have "f' ?q = Some Dir"
    using mk_dirs_mono[OF f1(1)] f1(2) by (auto simp: map_le_def dom_def)
  then have "F ?q = Some Dir"
    using Cons.prems(2) by (auto simp: map_le_def dom_def)
  moreover have "mk_dirs ?q cs F = Inr F"
    using Cons.IH[OF f1(1) Cons.prems(2)] .
  ultimately show ?case by simp
qed

lemma mk_dirs_error: "mk_dirs base p f = Inl e \<Longrightarrow> e = OSError"
proof (induction p arbitrary: base f)
  case Nil
  then show ?case by simp
next
  case (Cons c cs)
  then show ?case
    by (cases "f (base @ [c])") (auto split: node.splits)
qed

lemma mk_dirs_fails_again:
  "mk_dirs base p f = Inl e \<Longrightarrow> f \<subseteq>\<^sub>m F \<Longrightarrow> mk_dirs base p F = Inl e"
proof (induction p arbitrary: base f F)
  case Nil
  then show ?case by simp
next
  case (Cons c cs)
  let ?q = "base @ [c]"
  have e: "e = OSError" using Cons.prems(1) by (rule mk_dirs_error)
  show ?case
  proof (cases "f ?q")
    case None
    then have r: "mk_dirs ?q cs (f(?q \<mapsto> Dir)) = Inl e" using Cons.prems(1) by simp
    show ?thesis
    proof (cases "F ?q")
      case None
      have "f(?q \<mapsto> Dir) \<subseteq>\<^sub>m F(?q \<mapsto> Dir)"
        using Cons.prems(2) by (auto simp: map_le_def)
      then have "mk_dirs ?q cs (F(?q \<mapsto> Dir)) = Inl e" by (rule Cons.IH[OF r])
      then show ?thesis using None by simp
    next
      case (Some n)
      show ?thesis
      proof (cases n)
        case Dir
        then have "f(?q \<mapsto> Dir) \<subseteq>\<^sub>m F"
          using Cons.prems(2) Some by (auto simp: map_le_def)
        then have "mk_dirs ?q cs F = Inl e" by (rule Cons.IH[OF r])
        then show ?thesis using Some Dir by simp
      next
        case (File x)
        then show ?thesis using Some e by simp
      qed
    qed
  next
    case (Some n)
    then have F: "F ?q = Some n"
      using Cons.prems(2) by (auto simp: map_le_def dom_def)
    show ?thesis
    proof (cases n)
      case Dir
      then have "mk_dirs ?q cs f = Inl e" using Cons.prems(1) Some by simp
      then have "mk_dirs ?q cs F = Inl e" using Cons.prems(2) by (rule Cons.IH)
      then show ?thesis using F Dir by simp
    next
      case (File x)
      then show ?thesis using Some F e by simp
    qed
  qed
qed


text \<open>
  For the proofs, the body of the loop is cut into the checks that do not touch the file
  system and the step that does.
\<close>

definition store_team ::
  "ucd \<Rightarrow> ustr \<Rightarrow> path \<Rightarrow> ustr \<Rightarrow> ustr \<Rightarrow> run_state \<Rightarrow> run_state \<times> exn option" where
  "store_team U key event_subdir placement team_text st =
     (let st0 = st\<lparr> event_subdirs := (event_subdirs st)(key \<mapsto> event_subdir) \<rparr>
      in case mkdir_p event_subdir (fs st) of Inl e \<Rightarrow> (st0, Some e) | Inr f1 \<Rightarrow>
         let st1 = st0\<lparr> fs := f1 \<rparr>;
             base_filename = placement_to_filename U placement
         in case base_filename of [] \<Rightarrow> (st1, Some IndexError) | c # rest \<Rightarrow>
            if \<not> char_isdigit U c then (st1, None)
            else
              (let out_path = event_subdir @ [base_filename @ u ''.txt'']
               in if f1 out_path \<noteq> None
                  then (st1\<lparr> skipped_existing := skipped_existing st1 + 1 \<rparr>, None)
                  else (st1\<lparr> fs := f1(out_path \<mapsto> File team_text),
                             saved := saved st1 + 1 \<rparr>, None)))"

definition place_target ::
  "ucd \<Rightarrow> path \<Rightarrow> columns \<Rightarrow> ustr list \<Rightarrow> (ustr \<Rightarrow> path option)
     \<Rightarrow> exn + (ustr \<times> path \<times> ustr) option" where
  "place_target U reg_dir cols row subdirs =
     (case py_index row (int (event_idx cols)) of Inl e \<Rightarrow> Inl e | Inr event_cell \<Rightarrow>
      let event_name = str_strip event_cell;
          event_lower = str_lower U event_name
      in if \<not> list_ex (\<lambda>kw. contains event_lower kw) allowed_events then Inr None
         else if contains event_lower (u ''seniors'') \<or> contains event_lower (u ''juniors'')
         then Inr None
         else if contains event_name (u ''&'') then Inr None
         else
           (case py_index row (date_idx cols) of Inl e \<Rightarrow> Inl e | Inr date_cell \<Rightarrow>
            case py_index row (int (rank_idx cols)) of Inl e \<Rightarrow> Inl e | Inr rank_cell \<Rightarrow>
            let date_str = str_strip date_cell;
                placement = str_strip rank_cell
            in if contains placement (u ''juniors'') \<or> contains placement (u ''seniors'')
               then Inr None
               else
                 (let key = event_key U event_name date_str;
                      event_subdir =
                        (case subdirs key of
                           None \<Rightarrow> reg_dir @ [event_dir_name U event_name date_str]
                         | Some p \<Rightarrow> p)
                  in Inr (Some (key, event_subdir, placement)))))"

lemma place_row_factor:
  "place_row U reg_dir cols row team_text st =
     (case place_target U reg_dir cols row (event_subdirs st) of
        Inl e \<Rightarrow> (st, Some e)
      | Inr None \<Rightarrow> (st, None)
      | Inr (Some (key, event_subdir, placement)) \<Rightarrow>
          store_team U key event_subdir placement team_text st)"
  by (simp add: place_row_def place_target_def store_team_def Let_def split: sum.splits)

datatype admission = Skip | Banned | Duplicate | Admit ustr

definition row_too_short :: "columns \<Rightarrow> ustr list \<Rightarrow> bool" where
  "row_too_short cols row \<longleftrightarrow>
     int (length row) \<le>
       max (int (category_idx cols)) (max (int (evs_idx cols)) (max (int (pokepaste_idx cols))
         (max (int (event_idx cols)) (max (int (rank_idx cols)) (date_idx cols)))))"

definition admit :: "ucd \<Rightarrow> env \<Rightarrow> columns \<Rightarrow> ustr list \<Rightarrow> ustr list \<Rightarrow> exn + admission" where
  "admit U E cols row seen =
     (if row_too_short cols row then Inr Skip
      else
        (case py_index row (int (category_idx cols)) of Inl e \<Rightarrow> Inl e | Inr category_cell \<Rightarrow>
         if str_lower U (str_strip category_cell) \<noteq> u ''in person event'' then Inr Skip
         else
           (case py_index row (int (evs_idx cols)) of Inl e \<Rightarrow> Inl e | Inr evs_cell \<Rightarrow>
            if str_lower U (str_strip evs_cell) \<noteq> u ''yes'' then Inr Skip
            else
              (case py_index row (int (pokepaste_idx cols)) of Inl e \<Rightarrow> Inl e | Inr paste_cell \<Rightarrow>
               let pokepaste = str_strip paste_cell
               in if \<not> startswith pokepaste (u ''https://pokepast.es/'') then Inr Skip
                  else
                    (case fetch_pokepaste_raw U E pokepaste of Inl e \<Rightarrow> Inl e | Inr team_text \<Rightarrow>
                     if has_banned_move_or_ability U team_text then Inr Banned
                     else
                       (case parse_showdown_team E team_text of
                          Inl e \<Rightarrow> (if e = KeyError then Inr Skip else Inl e)
                        | Inr ok \<Rightarrow>
                            if list_ex (\<lambda>prev. similarity E team_text prev = 1) seen
                            then Inr Duplicate
                            else Inr (Admit team_text)))))))"

lemma process_row_factor:
  "process_row U E reg_dir cols row st =
     (case admit U E cols row (seen_teams st) of
        Inl e \<Rightarrow> (st, Some e)
      | Inr Skip \<Rightarrow> (st, None)
      | Inr Banned \<Rightarrow> (st\<lparr> skipped_banned := skipped_banned st + 1 \<rparr>, None)
      | Inr Duplicate \<Rightarrow> (st\<lparr> skipped_duplicates := skipped_duplicates st + 1 \<rparr>, None)
      | Inr (Admit team_text) \<Rightarrow>
          place_row U reg_dir cols row team_text
            (st\<lparr> seen_teams := seen_teams st @ [team_text] \<rparr>))"
  unfolding process_row_def admit_def row_too_short_def[symmetric] Let_def
  by (simp split: sum.splits)


lemma placement_to_filename_ne: "placement_to_filename U placement \<noteq> []"
  by (simp add: placement_to_filename_def Let_def u_def)

lemma map_le_at: "f \<subseteq>\<^sub>m F \<Longrightarrow> f p = Some n \<Longrightarrow> F p = Some n"
  by (auto simp: map_le_def dom_def)

lemma store_team_raises:
  "mkdir_p dir (fs s) = Inl e \<Longrightarrow>
   store_team U key dir placement t s
     = (s\<lparr> event_subdirs := (event_subdirs s)(key \<mapsto> dir) \<rparr>, Some e)"
  by (simp add: store_team_def Let_def)

lemma store_team_returns:
  assumes "store_team U key dir placement t s = (s1, r)" and "mkdir_p dir (fs s) = Inr f1"
  shows "r = None"
proof -
  obtain c rest where b: "placement_to_filename U placement = c # rest"
    using placement_to_filename_ne[of U placement] by (cases "placement_to_filename U placement") auto
  show ?thesis
    using assms b by (auto simp: store_team_def Let_def split: if_splits)
qed

lemma store_team_fs_le:
  assumes "store_team U key dir placement t s = (s1, r)" and m: "mkdir_p dir (fs s) = Inr f1"
  shows "f1 \<subseteq>\<^sub>m fs s1"
proof -
  obtain c rest where b: "placement_to_filename U placement = c # rest"
    using placement_to_filename_ne[of U placement] by (cases "placement_to_filename U placement") auto
  let ?out = "dir @ [(c # rest) @ u ''.txt'']"
  show ?thesis
  proof (cases "char_isdigit U c \<and> f1 ?out = None")
    case True
    then have "fs s1 = f1(?out \<mapsto> File t)"
      using assms b by (auto simp: store_team_def Let_def)
    then show ?thesis using True by (fastforce simp: map_le_def dom_def)
  next
    case False
    then have "fs s1 = f1"
      using assms b by (auto simp: store_team_def Let_def split: if_splits)
    then show ?thesis by simp
  qed
qed

lemma store_team_mono:
  assumes "store_team U key dir placement t s = (s1, r)"
  shows "fs s \<subseteq>\<^sub>m fs s1"
proof (cases "mkdir_p dir (fs s)")
  case (Inl e)
  then have "fs s1 = fs s" using assms by (auto simp: store_team_raises)
  then show ?thesis by simp
next
  case (Inr f1)
  then have le: "fs s \<subseteq>\<^sub>m f1" unfolding mkdir_p_def by (rule mk_dirs_mono)
  have "f1 \<subseteq>\<^sub>m fs s1" using assms Inr by (rule store_team_fs_le)
  with le show ?thesis by (rule map_le_trans)
qed

lemma store_team_rerun:
  assumes "store_team U key dir placement t s = (s1, r)" and "fs s1 \<subseteq>\<^sub>m F" and "rerun F s s'"
  shows "\<exists>s1'. store_team U key dir placement t s' = (s1', r) \<and> rerun F s1 s1'"
proof (cases "mkdir_p dir (fs s)")
  case (Inl e)
  have F: "fs s' = F" using assms(3) by (simp add: rerun_def)
  have s1: "s1 = s\<lparr> event_subdirs := (event_subdirs s)(key \<mapsto> dir) \<rparr>" "r = Some e"
    using assms(1) Inl by (simp_all add: store_team_raises)
  then have "fs s \<subseteq>\<^sub>m F" using assms(2) by simp
  with Inl have "mkdir_p dir F = Inl e"
    unfolding mkdir_p_def by (rule mk_dirs_fails_again)
  then have "store_team U key dir placement t s'
      = (s'\<lparr> event_subdirs := (event_subdirs s')(key \<mapsto> dir) \<rparr>, Some e)"
    using F by (simp add: store_team_raises)
  then show ?thesis using s1 assms(3) by (simp add: rerun_def)
next
  case m: (Inr f1)
  have r: "r = None" using assms(1) m by (rule store_team_returns)
  obtain c rest where b: "placement_to_filename U placement = c # rest"
    using placement_to_filename_ne[of U placement] by (cases "placement_to_filename U placement") auto
  let ?out = "dir @ [(c # rest) @ u ''.txt'']"
  have f1s1: "f1 \<subseteq>\<^sub>m fs s1" using assms(1) m by (rule store_team_fs_le)
  then have "f1 \<subseteq>\<^sub>m F" using assms(2) by (rule map_le_trans)
  with m have m': "mkdir_p dir F = Inr F"
    unfolding mkdir_p_def by (rule mk_dirs_again)
  have F: "fs s' = F" using assms(3) by (simp add: rerun_def)
  show ?thesis
  proof (cases "char_isdigit U c")
    case False
    then have "s1 = s\<lparr> event_subdirs := (event_subdirs s)(key \<mapsto> dir), fs := f1 \<rparr>"
      using assms(1) m b by (auto simp: store_team_def Let_def)
    moreover have "store_team U key dir placement t s'
        = (s'\<lparr> event_subdirs := (event_subdirs s')(key \<mapsto> dir), fs := F \<rparr>, None)"
      using False m' b F by (simp add: store_team_def Let_def)
    ultimately show ?thesis using assms(3) r by (simp add: rerun_def)
  next
    case True
    have out: "F ?out \<noteq> None"
    proof (cases "f1 ?out")
      case None
      then have "fs s1 ?out = Some (File t)"
        using assms(1) m b True by (auto simp: store_team_def Let_def)
      then show ?thesis using assms(2) map_le_at by fastforce
    next
      case (Some n)
      then show ?thesis using \<open>f1 \<subseteq>\<^sub>m F\<close> map_le_at by fastforce
    qed
    have r2: "store_team U key dir placement t s'
        = (s'\<lparr> event_subdirs := (event_subdirs s')(key \<mapsto> dir), fs := F,
               skipped_existing := skipped_existing s' + 1 \<rparr>, None)"
      using True m' b F out by (simp add: store_team_def Let_def)
    have "saved s1 + skipped_existing s1 = saved s + skipped_existing s + 1
        \<and> seen_teams s1 = seen_teams s \<and> skipped_banned s1 = skipped_banned s
        \<and> skipped_duplicates s1 = skipped_duplicates s
        \<and> event_subdirs s1 = (event_subdirs s)(key \<mapsto> dir)"
      using assms(1) m b True by (auto simp: store_team_def Let_def split: if_splits)
    then show ?thesis using r2 assms(3) r by (simp add: rerun_def)
  qed
qed

lemma place_row_mono:
  "place_row U rd cols row t s = (s1, r) \<Longrightarrow> fs s \<subseteq>\<^sub>m fs s1"
  unfolding place_row_factor
  by (auto split: sum.splits option.splits dest: store_team_mono)

lemma place_row_rerun:
  assumes "place_row U rd cols row t s = (s1, r)" and "fs s1 \<subseteq>\<^sub>m F" and "rerun F s s'"
  shows "\<exists>s1'. place_row U rd cols row t s' = (s1', r) \<and> rerun F s1 s1'"
proof -
  have e: "event_subdirs s' = event_subdirs s" using assms(3) by (simp add: rerun_def)
  show ?thesis
  proof (cases "place_target U rd cols row (event_subdirs s)")
    case (Inl x)
    then show ?thesis using assms e by (auto simp: place_row_factor)
  next
    case (Inr tg)
    show ?thesis
    proof (cases tg)
      case None
      then show ?thesis using Inr assms e by (auto simp: place_row_factor)
    next
      case (Some k)
      obtain key dir placement where k: "k = (key, dir, placement)" by (cases k)
      then have "store_team U key dir placement t s = (s1, r)"
        using assms(1) Inr Some by (simp add: place_row_factor)
      from store_team_rerun[OF this assms(2,3)] show ?thesis
        using Inr Some k e by (simp add: place_row_factor)
    qed
  qed
qed


lemma rerun_seen: "rerun F s s' \<Longrightarrow>
    rerun F (s\<lparr> seen_teams := seen_teams s @ [t] \<rparr>) (s'\<lparr> seen_teams := seen_teams s' @ [t] \<rparr>)"
  by (simp add: rerun_def)

lemma process_row_mono:
  assumes "process_row U E rd cols row s = (s1, r)"
  shows "fs s \<subseteq>\<^sub>m fs s1"
proof (cases "admit U E cols row (seen_teams s)")
  case (Inl x)
  then show ?thesis using assms by (auto simp: process_row_factor)
next
  case (Inr a)
  show ?thesis
  proof (cases a)
    case (Admit t)
    then have "place_row U rd cols row t (s\<lparr> seen_teams := seen_teams s @ [t] \<rparr>) = (s1, r)"
      using assms Inr by (simp add: process_row_factor)
    from place_row_mono[OF this] show ?thesis by simp
  qed (use assms Inr in \<open>auto simp: process_row_factor\<close>)
qed

lemma process_row_rerun:
  assumes "process_row U E rd cols row s = (s1, r)" and "fs s1 \<subseteq>\<^sub>m F" and "rerun F s s'"
  shows "\<exists>s1'. process_row U E rd cols row s' = (s1', r) \<and> rerun F s1 s1'"
proof -
  have e: "seen_teams s' = seen_teams s" using assms(3) by (simp add: rerun_def)
  show ?thesis
  proof (cases "admit U E cols row (seen_teams s)")
    case (Inl x)
    then show ?thesis using assms e by (auto simp: process_row_factor)
  next
    case (Inr a)
    show ?thesis
    proof (cases a)
      case (Admit t)
      then have "place_row U rd cols row t (s\<lparr> seen_teams := seen_teams s @ [t] \<rparr>) = (s1, r)"
        using assms(1) Inr by (simp add: process_row_factor)
      from place_row_rerun[OF this assms(2) rerun_seen[OF assms(3)]] show ?thesis
        using Inr Admit e by (simp add: process_row_factor)
    qed (use assms Inr e in \<open>auto simp: process_row_factor rerun_def\<close>)
  qed
qed

lemma rows_loop_mono:
  "rows_loop U E rd cols rows s = (t, r) \<Longrightarrow> fs s \<subseteq>\<^sub>m fs t"
proof (induction rows arbitrary: s)
  case Nil
  then show ?case by simp
next
  case (Cons row rows)
  obtain s1 r1 where p: "process_row U E rd cols row s = (s1, r1)"
    by (cases "process_row U E rd cols row s")
  show ?case
  proof (cases r1)
    case None
    then have "rows_loop U E rd cols rows s1 = (t, r)" using Cons.prems p by simp
    then have "fs s1 \<subseteq>\<^sub>m fs t" by (rule Cons.IH)
    with process_row_mono[OF p] show ?thesis by (rule map_le_trans)
  next
    case (Some e)
    then have "t = s1" using Cons.prems p by simp
    then show ?thesis using process_row_mono[OF p] by simp
  qed
qed

lemma rows_loop_rerun:
  "rows_loop U E rd cols rows s = (t, r) \<Longrightarrow> fs t \<subseteq>\<^sub>m F \<Longrightarrow> rerun F s s'
   \<Longrightarrow> \<exists>t'. rows_loop U E rd cols rows s' = (t', r) \<and> rerun F t t'"
proof (induction rows arbitrary: s s')
  case Nil
  then show ?case by simp
next
  case (Cons row rows)
  obtain s1 r1 where p: "process_row U E rd cols row s = (s1, r1)"
    by (cases "process_row U E rd cols row s")
  show ?case
  proof (cases r1)
    case None
    then have l: "rows_loop U E rd cols rows s1 = (t, r)" using Cons.prems(1) p by simp
    have "fs s1 \<subseteq>\<^sub>m F"
      using rows_loop_mono[OF l] Cons.prems(2) by (rule map_le_trans)
    from process_row_rerun[OF p this Cons.prems(3)] obtain s1' where
      s1': "process_row U E rd cols row s' = (s1', r1)" "rerun F s1 s1'" by blast
    from Cons.IH[OF l Cons.prems(2) s1'(2)] show ?thesis using s1'(1) None by simp
  next
    case (Some e)
    then have tr: "t = s1" "r = Some e" using Cons.prems(1) p by simp_all
    from process_row_rerun[OF p _ Cons.prems(3)] Cons.prems(2) tr obtain s1' where
      "process_row U E rd cols row s' = (s1', r1)" "rerun F s1 s1'" by blast
    then show ?thesis using tr Some by simp
  qed
qed

lemma process_sheet_mono:
  "process_sheet U E rd name s = (t, r) \<Longrightarrow> fs s \<subseteq>\<^sub>m fs t"
  unfolding process_sheet_def
  by (auto split: sum.splits option.splits dest: rows_loop_mono)

lemma process_sheet_rerun:
  "process_sheet U E rd name s = (t, r) \<Longrightarrow> fs t \<subseteq>\<^sub>m F \<Longrightarrow> rerun F s s'
   \<Longrightarrow> \<exists>t'. process_sheet U E rd name s' = (t', r) \<and> rerun F t t'"
  unfolding process_sheet_def
  by (auto split: sum.splits option.splits dest: rows_loop_rerun)

lemma sheets_loop_mono:
  "sheets_loop U E rd names s = (t, r) \<Longrightarrow> fs s \<subseteq>\<^sub>m fs t"
proof (induction names arbitrary: s)
  case Nil
  then show ?case by simp
next
  case (Cons n ns)
  obtain s1 r1 where p: "process_sheet U E rd n s = (s1, r1)"
    by (cases "process_sheet U E rd n s")
  show ?case
  proof (cases r1)
    case None
    then have "sheets_loop U E rd ns s1 = (t, r)" using Cons.prems p by simp
    then have "fs s1 \<subseteq>\<^sub>m fs t" by (rule Cons.IH)
    with process_sheet_mono[OF p] show ?thesis by (rule map_le_trans)
  next
    case (Some e)
    then have "t = s1" using Cons.prems p by simp
    then show ?thesis using process_sheet_mono[OF p] by simp
  qed
qed

lemma sheets_loop_rerun:
  "sheets_loop U E rd names s = (t, r) \<Longrightarrow> fs t \<subseteq>\<^sub>m F \<Longrightarrow> rerun F s s'
   \<Longrightarrow> \<exists>t'. sheets_loop U E rd names s' = (t', r) \<and> rerun F t t'"
proof (induction names arbitrary: s s')
  case Nil
  then show ?case by simp
next
  case (Cons n ns)
  obtain s1 r1 where p: "process_sheet U E rd n s = (s1, r1)"
    by (cases "process_sheet U E rd n s")
  show ?case
  proof (cases r1)
    case None
    then have l: "sheets_loop U E rd ns s1 = (t, r)" using Cons.prems(1) p by simp
    have "fs s1 \<subseteq>\<^sub>m F"
      using sheets_loop_mono[OF l] Cons.prems(2) by (rule map_le_trans)
    from process_sheet_rerun[OF p this Cons.prems(3)] obtain s1' where
      s1': "process_sheet U E rd n s' = (s1', r1)" "rerun F s1 s1'" by blast
    from Cons.IH[OF l Cons.prems(2) s1'(2)] show ?thesis using s1'(1) None by simp
  next
    case (Some e)
    then have tr: "t = s1" "r = Some e" using Cons.prems(1) p by simp_all
    from process_sheet_rerun[OF p _ Cons.prems(3)] Cons.prems(2) tr obtain s1' where
      "process_sheet U E rd n s' = (s1', r1)" "rerun F s1 s1'" by blast
    then show ?thesis using tr Some by simp
  qed
qed

text \<open>A source with two different teams in the same place of the same event.\<close>

definition twin_env :: env where
  "twin_env =
     \<lparr> sheet_names = Inr [u ''Reg G Featured Teams''],
       sheet_rows = (\<lambda>name. Inr [dated_header, team_row ''a'' ''Worlds'' ''1st'',
                                   team_row ''b'' ''Worlds'' ''1st'']),
       paste_raw = (\<lambda>url. if url = u ''https://pokepast.es/a/raw'' then Inr (u ''Pikachu'')
                            else Inr (u ''Eevee'')),
       parse_showdown_team = (\<lambda>t. Inr ()),
       similarity = (\<lambda>a b. if a = b then 1 else 0) \<rparr>"

definition twin_disk :: filesys where
  "twin_disk = [[u ''data''] \<mapsto> Dir, [u ''data'', u ''teams''] \<mapsto> Dir, reg_g \<mapsto> Dir,
                reg_g @ [u ''worlds''] \<mapsto> Dir,
                reg_g @ [u ''worlds'', u ''1st.txt''] \<mapsto> File (u ''Pikachu'' @ [10])]"

lemma twin_first_run:
  "scrape_regulation ucd_sample twin_env (u ''G'') Map.empty =
     ((initial_state twin_disk)
        \<lparr> seen_teams := [u ''Pikachu'' @ [10], u ''Eevee'' @ [10]], saved := 1,
          skipped_existing := 1,
          event_subdirs := [u ''worlds'' \<mapsto> reg_g @ [u ''worlds'']] \<rparr>, None)"
  by (simp add: all_eval twin_env_def twin_disk_def)

lemma twin_second_run:
  "scrape_regulation ucd_sample twin_env (u ''G'') twin_disk =
     ((initial_state twin_disk)
        \<lparr> seen_teams := [u ''Pikachu'' @ [10], u ''Eevee'' @ [10]],
          skipped_existing := 2,
          event_subdirs := [u ''worlds'' \<mapsto> reg_g @ [u ''worlds'']] \<rparr>, None)"
  by (simp add: all_eval twin_env_def twin_disk_def)


text \<open>
  C1 (as amended). Run \<^verbatim>\<open>scrape_regulation\<close> on any file system, and run it again on the
  file system the first run left, against the same source. The second run ends the same
  way (normally, or with the same exception), leaves the file system as it found it,
  saves nothing, and its count of already existing files is the sum of the first run's
  counts of saved and of already existing files; the counts of banned and of duplicate
  teams repeat.
\<close>

theorem rerun_same_disk:
  assumes "scrape_regulation U E regulation f = (st1, r1)"
  shows "\<exists>st2. scrape_regulation U E regulation (fs st1) = (st2, r1)
           \<and> fs st2 = fs st1
           \<and> saved st2 = 0
           \<and> skipped_existing st2 = saved st1 + skipped_existing st1
           \<and> skipped_banned st2 = skipped_banned st1
           \<and> skipped_duplicates st2 = skipped_duplicates st1"
proof -
  define rd where "rd = [u ''data'', u ''teams'', u ''reg'' @ str_lower U regulation]"
  show ?thesis
  proof (cases "mkdir_p rd f")
    case (Inl e)
    then have 1: "st1 = initial_state f" "r1 = Some e"
      using assms by (simp_all add: scrape_regulation_def rd_def)
    then have "scrape_regulation U E regulation (fs st1) = (initial_state f, Some e)"
      using Inl by (simp add: scrape_regulation_def rd_def initial_state_def)
    then show ?thesis using 1 by (simp add: initial_state_def)
  next
    case (Inr f1)
    have again: "mkdir_p rd F = Inr F" if "f1 \<subseteq>\<^sub>m F" for F
      using Inr that unfolding mkdir_p_def by (rule mk_dirs_again)
    show ?thesis
    proof (cases "sheet_names E")
      case (Inl e)
      then have 1: "st1 = initial_state f1" "r1 = Some e"
        using assms Inr by (simp_all add: scrape_regulation_def rd_def)
      have "mkdir_p rd f1 = Inr f1" by (rule again) simp
      then have "scrape_regulation U E regulation (fs st1) = (initial_state f1, Some e)"
        using Inl 1 by (simp add: scrape_regulation_def rd_def initial_state_def)
      then show ?thesis using 1 by (simp add: initial_state_def)
    next
      case names: (Inr all_sheet_names)
      define sheets where
        "sheets = featured_team_sheets_for_regulation U all_sheet_names regulation"
      have l: "sheets_loop U E rd sheets (initial_state f1) = (st1, r1)"
        using assms Inr names by (simp add: scrape_regulation_def rd_def sheets_def)
      have "f1 \<subseteq>\<^sub>m fs st1"
        using sheets_loop_mono[OF l] by (simp add: initial_state_def)
      then have m: "mkdir_p rd (fs st1) = Inr (fs st1)" by (rule again)
      have "rerun (fs st1) (initial_state f1) (initial_state (fs st1))"
        by (simp add: rerun_def initial_state_def)
      from sheets_loop_rerun[OF l _ this] obtain st2 where
        st2: "sheets_loop U E rd sheets (initial_state (fs st1)) = (st2, r1)"
          "rerun (fs st1) st1 st2" by auto
      have "scrape_regulation U E regulation (fs st1) = (st2, r1)"
        using m names st2(1) by (simp add: scrape_regulation_def rd_def sheets_def)
      then show ?thesis using st2(2) by (simp add: rerun_def)
    qed
  qed
qed


theorem rerun_same_disk_witness:
  "\<exists>st2. scrape_regulation ucd_sample twin_env (u ''G'') twin_disk = (st2, None)
         \<and> fs st2 = twin_disk \<and> saved st2 = 0 \<and> skipped_existing st2 = 2"
  using rerun_same_disk [OF twin_first_run]
  by (auto simp: initial_state_def numeral_2_eq_2)

text \<open>
  The claim as stated fails when the first run itself meets existing files: here two
  different teams have the same event and place, the first run saves one file and skips
  one, and the second run skips two.
\<close>

theorem rerun_existing_count_counterexample:
  "printed_summary (scrape_regulation ucd_sample twin_env (u ''G'') Map.empty)
     = Some (1, 1, 0, 0)
   \<and> fs (fst (scrape_regulation ucd_sample twin_env (u ''G'') Map.empty)) = twin_disk
   \<and> printed_summary (scrape_regulation ucd_sample twin_env (u ''G'') twin_disk)
       = Some (0, 2, 0, 0)"
  unfolding twin_first_run twin_second_run
  by (simp add: printed_summary_def initial_state_def)

end
